theory Spec2Isabelle
  imports Main "HOL-Library.Word"
begin

section \<open>The journal client of journal-send.c\<close>

text \<open>
  The file \<^verbatim>\<open>src/journal/journal-send.c\<close> sends one log record, a list of
  \<^verbatim>\<open>NAME=VALUE\<close> fields, to the journal socket as one datagram. The model below
  follows the C text: the caller's \<^verbatim>\<open>struct iovec\<close> array is a list of byte
  strings, the two \<^verbatim>\<open>alloca\<close> arrays are lists of cells that start
  uninitialised, the segments of the outgoing message are pointers that are only followed
  when the message is sent, every early \<^verbatim>\<open>return\<close> is a branch, and an access
  outside an array is the explicit outcome \<open>Fault\<close>.

  The loop is modelled for arrays that were obtained: \<open>encode\<close> starts from the two
  arrays, and its counters are natural numbers. Whether lines 135 and 136 obtain the
  arrays, and whether the \<^verbatim>\<open>int\<close> counter \<open>j\<close> of line 128 stays in its range, is
  the predicate \<open>arrays_obtained\<close> below; the properties that speak about the count
  of fields itself carry it as a hypothesis. A length \<^verbatim>\<open>iov_len\<close> is a
  \<^verbatim>\<open>size_t\<close>, at most 64 bits wide. File descriptors and error codes are far below
  \<^verbatim>\<open>INT_MAX\<close>, so \<^verbatim>\<open>fd + 1\<close> and \<^verbatim>\<open>-errno\<close> are computed on integers.
  \<^verbatim>\<open>sd_journal_send\<close>, which only builds the array for \<^verbatim>\<open>sd_journal_sendv\<close> from
  its arguments, is left out.
\<close>

subsection \<open>Bytes, buffers and the C library\<close>

type_synonym byte = "8 word"

text \<open>A caller's \<^verbatim>\<open>struct iovec\<close>: the \<^verbatim>\<open>iov_len\<close> bytes at \<^verbatim>\<open>iov_base\<close>.\<close>

type_synonym iovec = "byte list"

definition NL :: byte where
  "NL = 10"

definition EQ :: byte where
  "EQ = 61"

definition EINVAL :: int where
  "EINVAL = 22"

text \<open>
  \<^verbatim>\<open>memchr(s, c, n)\<close> on the \<open>n\<close> bytes of a buffer: the offset of the first
  occurrence of \<open>c\<close>, \<open>None\<close> for the null pointer.
\<close>

fun memchr :: "byte list \<Rightarrow> byte \<Rightarrow> nat option" where
  "memchr [] c = None"
| "memchr (x # xs) c = (if x = c then Some 0 else map_option Suc (memchr xs c))"

text \<open>
  \<^verbatim>\<open>htole64(v)\<close>, as the eight bytes that the stored \<^verbatim>\<open>uint64_t\<close> occupies in
  memory: least significant byte first, whatever the byte order of the host.
\<close>

definition htole64 :: "64 word \<Rightarrow> byte list" where
  "htole64 v = map (\<lambda>k. ucast (drop_bit (8 * k) v)) [0..<8]"

subsection \<open>Segments of the outgoing message\<close>

text \<open>
  The base pointer of a segment of \<^verbatim>\<open>w\<close> points into the caller's buffer
  \<^verbatim>\<open>iov[i]\<close> at an offset, at the string literal \<^verbatim>\<open>"\n"\<close>, or at the cell
  \<^verbatim>\<open>l[i]\<close>. No byte is copied.
\<close>

datatype ptr = Iov_ptr nat nat | Newline_literal | Len_ptr nat

record seg =
  iov_base :: ptr
  iov_len :: nat

text \<open>
  Modelled from the spec: the macro \<^verbatim>\<open>IOVEC_SET_STRING\<close> of \<^verbatim>\<open>util.h\<close> is not
  among the sources. The spec calls its effect at \<^verbatim>\<open>IOVEC_SET_STRING(w[j++], "\n")\<close>
  ``a literal \<^verbatim>\<open>\n\<close> segment'': the base is the string, the length its
  \<^verbatim>\<open>strlen\<close>, here 1.
\<close>

definition IOVEC_SET_STRING_newline :: seg where
  "IOVEC_SET_STRING_newline = \<lparr>iov_base = Newline_literal, iov_len = 1\<rparr>"

text \<open>
  How a call leaves the function: a returned \<^verbatim>\<open>int\<close>, or an access outside an
  array (undefined behaviour in C).
\<close>

datatype outcome = Return int | Fault

text \<open>
  The locals of \<^verbatim>\<open>sd_journal_sendv\<close> that the loop updates: the array \<open>w\<close> of
  \<open>5 * n\<close> segments, the array \<open>l\<close> of \<open>n\<close> length words (each held as its
  bytes in memory), and the write index \<open>j\<close>. A cell is \<open>None\<close> until it is written.
\<close>

record enc_state =
  w :: "seg option list"
  l :: "byte list option list"
  j :: nat

definition bind_outcome :: "outcome + 'a \<Rightarrow> ('a \<Rightarrow> outcome + 'b) \<Rightarrow> outcome + 'b" where
  "bind_outcome r f = (case r of Inl e \<Rightarrow> Inl e | Inr x \<Rightarrow> f x)"

text \<open>\<^verbatim>\<open>w[j++] = s\<close>\<close>

definition put_seg :: "seg \<Rightarrow> enc_state \<Rightarrow> outcome + enc_state" where
  "put_seg s st =
     (if j st < length (w st)
      then Inr (st\<lparr>w := (w st)[j st := Some s], j := j st + 1\<rparr>)
      else Inl Fault)"

text \<open>\<^verbatim>\<open>l[i] = v\<close>\<close>

definition put_len :: "nat \<Rightarrow> byte list \<Rightarrow> enc_state \<Rightarrow> outcome + enc_state" where
  "put_len i v st =
     (if i < length (l st)
      then Inr (st\<lparr>l := (l st)[i := Some v]\<rparr>)
      else Inl Fault)"

subsection \<open>The encoding loop of \<^verbatim>\<open>sd_journal_sendv\<close>\<close>

text \<open>
  One round of the \<^verbatim>\<open>for\<close> loop (lines 139 to 175), for the index \<open>i\<close>.
  \<open>c\<close> and \<open>nl\<close> are offsets into \<^verbatim>\<open>iov[i]\<close>, so the pointer comparison
  \<^verbatim>\<open>nl < c\<close> compares offsets.
\<close>

definition encode_iov :: "iovec list \<Rightarrow> nat \<Rightarrow> enc_state \<Rightarrow> outcome + enc_state" where
  "encode_iov iov i st =
     (if length iov \<le> i then Inl Fault
      else
        case memchr (iov ! i) EQ of
          None \<Rightarrow> Inl (Return (- EINVAL))
        | Some c \<Rightarrow>
            bind_outcome
              (case memchr (iov ! i) NL of
                 Some nl \<Rightarrow>
                   if nl < c then Inl (Return (- EINVAL))
                   else
                     bind_outcome (put_seg \<lparr>iov_base = Iov_ptr i 0, iov_len = c\<rparr> st) (\<lambda>st.
                     bind_outcome (put_seg IOVEC_SET_STRING_newline st) (\<lambda>st.
                     bind_outcome (put_len i (htole64 (of_nat (length (iov ! i) - c - 1))) st) (\<lambda>st.
                     bind_outcome (put_seg \<lparr>iov_base = Len_ptr i, iov_len = 8\<rparr> st) (\<lambda>st.
                       put_seg \<lparr>iov_base = Iov_ptr i (c + 1),
                                iov_len = length (iov ! i) - c - 1\<rparr> st))))
               | None \<Rightarrow>
                   put_seg \<lparr>iov_base = Iov_ptr i 0, iov_len = length (iov ! i)\<rparr> st)
              (put_seg IOVEC_SET_STRING_newline))"

function encode_loop :: "iovec list \<Rightarrow> nat \<Rightarrow> nat \<Rightarrow> enc_state \<Rightarrow> outcome + enc_state" where
  "encode_loop iov n i st =
     (if i < n
      then (case encode_iov iov i st of
              Inl e \<Rightarrow> Inl e
            | Inr st' \<Rightarrow> encode_loop iov n (i + 1) st')
      else Inr st)"
  by pat_completeness auto
termination
  by (relation "measure (\<lambda>(iov, n, i, st). n - i)") auto

declare encode_loop.simps [simp del]

text \<open>
  Lines 135 to 176: the two arrays are allocated for \<open>n\<close> fields, \<open>j\<close> starts at 0,
  and the loop runs over \<open>i = 0, ..., n - 1\<close>.
\<close>

definition encode :: "iovec list \<Rightarrow> nat \<Rightarrow> outcome + enc_state" where
  "encode iov n =
     encode_loop iov n 0 \<lparr>w = replicate (5 * n) None, l = replicate n None, j = 0\<rparr>"

text \<open>
  \<^verbatim>\<open>alloca(k)\<close> moves the stack pointer by \<open>k\<close> bytes and checks nothing. With
  \<open>room\<close> bytes of stack left it gives the block, and what is left of the room, when
  \<open>k\<close> is at most \<open>room\<close>; otherwise the block lies outside the stack, and the call
  is lost.
\<close>

definition alloca :: "nat \<Rightarrow> nat \<Rightarrow> nat option" where
  "alloca room k = (if k \<le> room then Some (room - k) else None)"

definition INT_MAX :: nat where
  "INT_MAX = 2147483647"

text \<open>
  Lines 135 and 136 take \<^verbatim>\<open>sizeof(struct iovec) * n * 5\<close> and
  \<^verbatim>\<open>sizeof(uint64_t) * n\<close> bytes, where a \<^verbatim>\<open>struct iovec\<close> is a pointer and a
  \<^verbatim>\<open>size_t\<close>, 16 bytes on a machine with 64-bit addresses. The arrays are
  obtained when both blocks fit into the room that the stack has left. The counter
  \<open>j\<close> of line 128 is an \<^verbatim>\<open>int\<close> and is raised once for each segment, at most
  \<open>5 * n\<close> times, so it stays in its range when \<open>5 * n\<close> is at most
  \<^verbatim>\<open>INT_MAX\<close>; \<open>i\<close> and \<open>n\<close> are smaller.
\<close>

definition arrays_obtained :: "nat \<Rightarrow> nat \<Rightarrow> bool" where
  "arrays_obtained room n \<longleftrightarrow>
     (case alloca room (16 * n * 5) of
        None \<Rightarrow> False
      | Some room' \<Rightarrow> alloca room' (8 * n) \<noteq> None) \<and>
     5 * n \<le> INT_MAX"

subsection \<open>What \<^verbatim>\<open>sendmsg\<close> reads\<close>

text \<open>
  The kernel follows each segment's base pointer when the message is sent. A pointer
  into \<^verbatim>\<open>iov[i]\<close> reads the caller's bytes, the string literal holds the two bytes
  \<^verbatim>\<open>'\n'\<close> and \<^verbatim>\<open>'\0'\<close>, and \<^verbatim>\<open>&l[i]\<close> reads the eight bytes stored in
  that cell. A read outside the object, or of a cell never written, has no defined
  result.
\<close>

definition deref :: "iovec list \<Rightarrow> byte list option list \<Rightarrow> seg \<Rightarrow> byte list option" where
  "deref iov la s =
     (case iov_base s of
        Iov_ptr i off \<Rightarrow>
          if i < length iov \<and> off + iov_len s \<le> length (iov ! i)
          then Some (take (iov_len s) (drop off (iov ! i))) else None
      | Newline_literal \<Rightarrow>
          if iov_len s \<le> 2 then Some (take (iov_len s) [NL, 0]) else None
      | Len_ptr i \<Rightarrow>
          if i < length la \<and> iov_len s \<le> 8
          then map_option (take (iov_len s)) (la ! i) else None)"

fun gather :: "iovec list \<Rightarrow> byte list option list \<Rightarrow> seg option list \<Rightarrow> byte list option" where
  "gather iov la [] = Some []"
| "gather iov la (None # ss) = None"
| "gather iov la (Some s # ss) =
     (case deref iov la s of
        None \<Rightarrow> None
      | Some bs \<Rightarrow> map_option ((@) bs) (gather iov la ss))"

text \<open>The payload for \<^verbatim>\<open>msg_iov = w\<close>, \<^verbatim>\<open>msg_iovlen = j\<close>.\<close>

definition payload :: "iovec list \<Rightarrow> enc_state \<Rightarrow> byte list option" where
  "payload iov st = gather iov (l st) (take (j st) (w st))"

subsection \<open>The process and the operating system\<close>

record datagram =
  dg_fd :: int
  dg_path :: string
  dg_payload :: "byte list"

text \<open>
  What the calls can change or observe: the static variable \<^verbatim>\<open>fd_plus_one\<close> of
  \<^verbatim>\<open>journal_fd\<close>, the number of \<^verbatim>\<open>socket\<close> and \<^verbatim>\<open>sendmsg\<close> calls made,
  the descriptors that \<^verbatim>\<open>socket\<close> returned, the descriptors closed again, and the
  datagrams that left the process.
\<close>

record world =
  fd_plus_one :: int
  socket_calls :: nat
  sendmsg_calls :: nat
  created_fds :: "int list"
  closed_fds :: "int list"
  datagrams :: "datagram list"

text \<open>
  The operating system answers a system call with a return value and the value it
  leaves in \<^verbatim>\<open>errno\<close>. The answer may depend on everything done so far.
\<close>

record os =
  os_socket :: "world \<Rightarrow> int \<times> int"
  os_sendmsg :: "world \<Rightarrow> int \<Rightarrow> string \<Rightarrow> byte list \<Rightarrow> int \<times> int"

text \<open>\<^verbatim>\<open>socket(AF_UNIX, SOCK_DGRAM|SOCK_CLOEXEC, 0)\<close>\<close>

definition socket :: "os \<Rightarrow> world \<Rightarrow> int \<times> int \<times> world" where
  "socket os wd =
     (let (fd, errno) = os_socket os wd
      in (fd, errno,
          wd\<lparr>socket_calls := socket_calls wd + 1,
             created_fds := (if fd < 0 then created_fds wd else created_fds wd @ [fd])\<rparr>))"

text \<open>
  \<^verbatim>\<open>sendmsg(fd, &mh, MSG_NOSIGNAL)\<close> on a datagram socket: the message leaves whole,
  as one datagram, when the call does not fail, and not at all when it fails.
\<close>

definition sendmsg :: "os \<Rightarrow> int \<Rightarrow> string \<Rightarrow> byte list \<Rightarrow> world \<Rightarrow> int \<times> int \<times> world" where
  "sendmsg os fd path bs wd =
     (let (ret, errno) = os_sendmsg os wd fd path bs
      in (ret, errno,
          wd\<lparr>sendmsg_calls := sendmsg_calls wd + 1,
             datagrams :=
               (if ret < 0 then datagrams wd
                else datagrams wd @ [\<lparr>dg_fd = fd, dg_path = path, dg_payload = bs\<rparr>])\<rparr>))"

text \<open>
  Modelled from the spec: \<^verbatim>\<open>close_nointr_nofail\<close> of \<^verbatim>\<open>util.h\<close> is not among the
  sources. The spec says of the thread that loses the race that it ``discards its newly
  created socket (closing it without side effects)''.
\<close>

definition close_nointr_nofail :: "int \<Rightarrow> world \<Rightarrow> world" where
  "close_nointr_nofail fd wd = wd\<lparr>closed_fds := closed_fds wd @ [fd]\<rparr>"

subsection \<open>\<^verbatim>\<open>journal_fd\<close>\<close>

text \<open>
  The function is run by many threads at once, so it is modelled statement by
  statement. A thread inside a call is at the label \<^verbatim>\<open>retry\<close> (line 40), before the
  \<^verbatim>\<open>socket\<close> call (line 43), before the compare-and-swap (line 47) or before the
  \<^verbatim>\<open>close\<close> (line 48), the last two with its local \<^verbatim>\<open>fd\<close>; or it has returned.
\<close>

datatype pc = At_retry | At_socket | At_cas int | At_close int | Returned int

fun journal_fd_step :: "os \<Rightarrow> pc \<Rightarrow> world \<Rightarrow> pc \<times> world" where
  "journal_fd_step os At_retry wd =
     (if fd_plus_one wd > 0 then (Returned (fd_plus_one wd - 1), wd) else (At_socket, wd))"
| "journal_fd_step os At_socket wd =
     (let (fd, errno, wd') = socket os wd
      in if fd < 0 then (Returned (- errno), wd') else (At_cas fd, wd'))"
| "journal_fd_step os (At_cas fd) wd =
     (if fd_plus_one wd = 0 then (Returned fd, wd\<lparr>fd_plus_one := fd + 1\<rparr>)
      else (At_close fd, wd))"
| "journal_fd_step os (At_close fd) wd = (At_retry, close_nointr_nofail fd wd)"
| "journal_fd_step os (Returned r) wd = (Returned r, wd)"

text \<open>
  A call that no other thread interrupts runs its statements to the \<^verbatim>\<open>return\<close>. The
  \<^verbatim>\<open>goto retry\<close> makes this a loop, and a call that never returns has the value
  \<open>None\<close>.
\<close>

partial_function (option) journal_fd_run :: "os \<Rightarrow> pc \<Rightarrow> world \<Rightarrow> (int \<times> world) option" where
  "journal_fd_run os p wd =
     (case p of
        Returned r \<Rightarrow> Some (r, wd)
      | _ \<Rightarrow> (case journal_fd_step os p wd of (p', wd') \<Rightarrow> journal_fd_run os p' wd'))"

declare journal_fd_run.simps [code]

definition journal_fd :: "os \<Rightarrow> world \<Rightarrow> (int \<times> world) option" where
  "journal_fd os wd = journal_fd_run os At_retry wd"

text \<open>
  The threads of the process, each inside or between calls of \<^verbatim>\<open>journal_fd\<close>, over
  the shared world. In one step one thread runs one statement, with any answer of the
  operating system, or a thread that has returned calls the function again.
\<close>

inductive sys_step :: "(nat \<Rightarrow> pc) \<times> world \<Rightarrow> (nat \<Rightarrow> pc) \<times> world \<Rightarrow> bool" where
  statement:
    "journal_fd_step os (ths t) wd = (p', wd') \<Longrightarrow>
     sys_step (ths, wd) (ths(t := p'), wd')"
| call:
    "ths t = Returned r \<Longrightarrow> sys_step (ths, wd) (ths(t := At_retry), wd)"

subsection \<open>\<^verbatim>\<open>sd_journal_sendv\<close>\<close>

definition journal_path :: string where
  "journal_path = ''/run/systemd/journal''"

definition sd_journal_sendv ::
    "os \<Rightarrow> iovec list option \<Rightarrow> int \<Rightarrow> world \<Rightarrow> (outcome \<times> world) option" where
  "sd_journal_sendv os iov_arg n wd =
     (case iov_arg of
        None \<Rightarrow> Some (Return (- EINVAL), wd)
      | Some iov \<Rightarrow>
          if n \<le> 0 then Some (Return (- EINVAL), wd)
          else
            case encode iov (nat n) of
              Inl e \<Rightarrow> Some (e, wd)
            | Inr st \<Rightarrow>
                (case journal_fd os wd of
                   None \<Rightarrow> None
                 | Some (fd, wd1) \<Rightarrow>
                     if fd < 0 then Some (Return fd, wd1)
                     else
                       case payload iov st of
                         None \<Rightarrow> Some (Fault, wd1)
                       | Some bs \<Rightarrow>
                           (case sendmsg os fd journal_path bs wd1 of
                              (ret, errno, wd2) \<Rightarrow>
                                if ret < 0 then Some (Return (- errno), wd2)
                                else Some (Return 0, wd2))))"

subsection \<open>\<^verbatim>\<open>sd_journal_printv\<close>\<close>

definition bytes_of :: "string \<Rightarrow> byte list" where
  "bytes_of s = map (\<lambda>c. of_nat (of_char c)) s"

text \<open>\<^verbatim>\<open>memcpy(buffer + off, src, length src)\<close>, inside the buffer.\<close>

definition memcpy :: "byte list \<Rightarrow> nat \<Rightarrow> byte list \<Rightarrow> byte list" where
  "memcpy buffer off src = take off buffer @ src @ drop (off + length src) buffer"

text \<open>
  \<^verbatim>\<open>vsnprintf(buffer + off, n, format, ap)\<close>, where \<open>text\<close> is what the format
  and its arguments print: at most \<open>n - 1\<close> bytes of it are stored, then a NUL
  byte, and nothing when \<open>n\<close> is 0.
\<close>

definition vsnprintf :: "byte list \<Rightarrow> nat \<Rightarrow> nat \<Rightarrow> byte list \<Rightarrow> byte list" where
  "vsnprintf buffer off n text =
     (if n = 0 then buffer else memcpy buffer off (take (n - 1) text @ [0]))"

text \<open>
  Modelled from the spec: the macro \<^verbatim>\<open>char_array_0\<close> of \<^verbatim>\<open>util.h\<close> is not among
  the sources, and the spec has no more than its name and its use on the array: it
  stores a NUL byte in the last element, at \<^verbatim>\<open>sizeof(buffer) - 1\<close>.
\<close>

definition char_array_0 :: "byte list \<Rightarrow> byte list" where
  "char_array_0 buffer = buffer[length buffer - 1 := 0]"

text \<open>
  \<^verbatim>\<open>IOVEC_SET_STRING(iov, buffer)\<close>: the segment is the buffer up to its
  \<^verbatim>\<open>strlen\<close>, the bytes before the first NUL.
\<close>

definition IOVEC_SET_STRING :: "byte list \<Rightarrow> iovec" where
  "IOVEC_SET_STRING s = takeWhile (\<lambda>b. b \<noteq> 0) s"

text \<open>
  Lines 67 to 73. \<open>line_max\<close> is \<^verbatim>\<open>LINE_MAX\<close> of the system's \<^verbatim>\<open>limits.h\<close>,
  \<open>stack\<close> gives the bytes that the uninitialised array \<^verbatim>\<open>buffer[8 + LINE_MAX]\<close>
  holds on entry, and \<open>text\<close> is the output of the format and its arguments.
\<close>

definition printv_buffer :: "nat \<Rightarrow> (nat \<Rightarrow> byte) \<Rightarrow> byte list \<Rightarrow> byte list" where
  "printv_buffer line_max stack text =
     (let buffer = map stack [0..<8 + line_max];
          buffer = memcpy buffer 0 (bytes_of ''MESSAGE='');
          buffer = vsnprintf buffer 8 (length buffer - 8) text
      in char_array_0 buffer)"

text \<open>Lines 75 to 78: the one field is the string in the buffer.\<close>

definition sd_journal_printv ::
    "nat \<Rightarrow> os \<Rightarrow> (nat \<Rightarrow> byte) \<Rightarrow> byte list \<Rightarrow> world \<Rightarrow> (outcome \<times> world) option" where
  "sd_journal_printv line_max os stack text wd =
     (let iov = IOVEC_SET_STRING (printv_buffer line_max stack text)
      in sd_journal_sendv os (Some [iov]) 1 wd)"

text \<open>\<^verbatim>\<open>sd_journal_print\<close> passes its arguments on to \<^verbatim>\<open>sd_journal_printv\<close>.\<close>

definition sd_journal_print ::
    "nat \<Rightarrow> os \<Rightarrow> (nat \<Rightarrow> byte) \<Rightarrow> byte list \<Rightarrow> world \<Rightarrow> (outcome \<times> world) option" where
  "sd_journal_print line_max os stack text wd = sd_journal_printv line_max os stack text wd"

subsection \<open>The start of the process, and two operating systems\<close>

text \<open>
  When the process starts the static \<^verbatim>\<open>fd_plus_one\<close> is 0 and nothing has been done.
  The examples below run against an operating system that gives descriptor 3 and sends
  every message, and against one where \<^verbatim>\<open>socket\<close> fails with \<^verbatim>\<open>EMFILE\<close> (24)
  and \<^verbatim>\<open>sendmsg\<close> with \<^verbatim>\<open>ECONNREFUSED\<close> (111).
\<close>

definition initial_world :: world where
  "initial_world =
     \<lparr>fd_plus_one = 0, socket_calls = 0, sendmsg_calls = 0,
      created_fds = [], closed_fds = [], datagrams = []\<rparr>"

definition os_accepting :: os where
  "os_accepting =
     \<lparr>os_socket = (\<lambda>wd. (3, 0)),
      os_sendmsg = (\<lambda>wd fd path bs. (int (length bs), 0))\<rparr>"

definition os_refusing :: os where
  "os_refusing =
     \<lparr>os_socket = (\<lambda>wd. (- 1, 24)),
      os_sendmsg = (\<lambda>wd fd path bs. (- 1, 111))\<rparr>"

section \<open>The record format, in the words of the specification\<close>

text \<open>
  The definitions of this section are written from the specification, not from the
  code, to be compared with the code. Its data model: the name of a field is ``the
  substring before the first \<^verbatim>\<open>=\<close> byte'', the value is what follows that byte, and
  in a well-formed field the raw bytes contain ``at least one \<^verbatim>\<open>=\<close> byte'' and a
  newline ``must occur at or after the first \<^verbatim>\<open>=\<close>''.
\<close>

definition spec_name :: "byte list \<Rightarrow> byte list" where
  "spec_name f = takeWhile (\<lambda>b. b \<noteq> EQ) f"

definition spec_value :: "byte list \<Rightarrow> byte list" where
  "spec_value f = drop (length (spec_name f) + 1) f"

definition spec_well_formed :: "byte list \<Rightarrow> bool" where
  "spec_well_formed f \<longleftrightarrow> EQ \<in> set f \<and> NL \<notin> set (spec_name f)"

text \<open>
  A malformed field, in the words of the error list: it ``lacks an \<^verbatim>\<open>=\<close> separator,
  or contains a \<^verbatim>\<open>\n\<close> before the separator''.
\<close>

definition spec_malformed :: "byte list \<Rightarrow> bool" where
  "spec_malformed f \<longleftrightarrow>
     EQ \<notin> set f \<or> (\<exists>k<length f. f ! k = NL \<and> EQ \<notin> set (take k f))"

text \<open>\<^verbatim>\<open>LEN(u64, little-endian, 8 bytes)\<close>: the bytes of a number, and the number of bytes.\<close>

fun spec_le_bytes :: "nat \<Rightarrow> nat \<Rightarrow> byte list" where
  "spec_le_bytes 0 n = []"
| "spec_le_bytes (Suc k) n = of_nat (n mod 256) # spec_le_bytes k (n div 256)"

fun spec_le_value :: "byte list \<Rightarrow> nat" where
  "spec_le_value [] = 0"
| "spec_le_value (b # bs) = unat b + 256 * spec_le_value bs"

text \<open>
  The wire format:
  \<^verbatim>\<open>simple := NAME "=" VALUE "\n"\<close> and
  \<^verbatim>\<open>binary_safe := NAME "\n" LEN(u64, little-endian, 8 bytes) VALUE "\n"\<close>,
  the second for a value with a newline; a record is its fields in the caller's order.
\<close>

definition spec_simple :: "byte list \<Rightarrow> byte list \<Rightarrow> byte list" where
  "spec_simple name v = name @ [EQ] @ v @ [NL]"

definition spec_binary_safe :: "byte list \<Rightarrow> byte list \<Rightarrow> byte list" where
  "spec_binary_safe name v = name @ [NL] @ spec_le_bytes 8 (length v) @ v @ [NL]"

definition spec_field :: "byte list \<Rightarrow> byte list" where
  "spec_field f =
     (if NL \<in> set (spec_value f) then spec_binary_safe (spec_name f) (spec_value f)
      else spec_simple (spec_name f) (spec_value f))"

definition spec_record :: "byte list list \<Rightarrow> byte list" where
  "spec_record fs = concat (map spec_field fs)"

text \<open>
  The grammar \<^verbatim>\<open>record := field*\<close>, \<^verbatim>\<open>field := simple | binary_safe\<close> as a
  relation between the bytes and the names and values they stand for. A name has no
  \<^verbatim>\<open>=\<close>, being what stands before the first one, and no newline, by the invariant
  of a field; the value of the simple form ``has no \<^verbatim>\<open>\n\<close>''; a length is a
  \<^verbatim>\<open>u64\<close>.
\<close>

inductive spec_grammar :: "byte list \<Rightarrow> (byte list \<times> byte list) list \<Rightarrow> bool" where
  record_end: "spec_grammar [] []"
| simple:
    "EQ \<notin> set name \<Longrightarrow> NL \<notin> set name \<Longrightarrow> NL \<notin> set v \<Longrightarrow> spec_grammar rest fs \<Longrightarrow>
     spec_grammar (spec_simple name v @ rest) ((name, v) # fs)"
| binary_safe:
    "EQ \<notin> set name \<Longrightarrow> NL \<notin> set name \<Longrightarrow> length v < 2 ^ 64 \<Longrightarrow> spec_grammar rest fs \<Longrightarrow>
     spec_grammar (spec_binary_safe name v @ rest) ((name, v) # fs)"

text \<open>
  A reader of that grammar. \<^verbatim>\<open>NAME\<close> runs to the first \<^verbatim>\<open>=\<close> or newline,
  whichever comes first, and that byte tells the two forms apart; a simple value runs to
  the next newline; a binary-safe value has the length that the eight bytes give and is
  followed by a newline. The result is the list of names and values, \<open>None\<close> when the
  bytes are not a record.
\<close>

function spec_parse :: "byte list \<Rightarrow> (byte list \<times> byte list) list option" where
  "spec_parse bs =
     (if bs = [] then Some []
      else
        case dropWhile (\<lambda>b. b \<noteq> EQ \<and> b \<noteq> NL) bs of
          [] \<Rightarrow> None
        | d # rest \<Rightarrow>
            if d = EQ then
              (case dropWhile (\<lambda>b. b \<noteq> NL) rest of
                 [] \<Rightarrow> None
               | _ # rest' \<Rightarrow>
                   map_option
                     ((#) (takeWhile (\<lambda>b. b \<noteq> EQ \<and> b \<noteq> NL) bs,
                           takeWhile (\<lambda>b. b \<noteq> NL) rest))
                     (spec_parse rest'))
            else if length rest < 8 + spec_le_value (take 8 rest) + 1 then None
            else if rest ! (8 + spec_le_value (take 8 rest)) \<noteq> NL then None
            else
              map_option
                ((#) (takeWhile (\<lambda>b. b \<noteq> EQ \<and> b \<noteq> NL) bs,
                      take (spec_le_value (take 8 rest)) (drop 8 rest)))
                (spec_parse (drop (8 + spec_le_value (take 8 rest) + 1) rest)))"
  by pat_completeness auto
termination
proof (relation "measure length")
  show "wf (measure length)" by simp
next
  fix bs :: "byte list" and d rest x rest'
  assume "dropWhile (\<lambda>b. b \<noteq> EQ \<and> b \<noteq> NL) bs = d # rest"
    and "dropWhile (\<lambda>b. b \<noteq> NL) rest = x # rest'"
  then have "length (d # rest) \<le> length bs" and "length (x # rest') \<le> length rest"
    by (metis length_dropWhile_le)+
  then show "(rest', bs) \<in> measure length" by simp
next
  fix bs :: "byte list" and d rest
  assume "dropWhile (\<lambda>b. b \<noteq> EQ \<and> b \<noteq> NL) bs = d # rest"
  then have "length (d # rest) \<le> length bs"
    by (metis length_dropWhile_le)
  then show "(drop (8 + spec_le_value (take 8 rest) + 1) rest, bs) \<in> measure length" by simp
qed

declare spec_parse.simps [simp del]

section \<open>The rounds of the loop\<close>

text \<open>
  The state of a call for \<open>n\<close> fields after the first \<open>i\<close> rounds of its loop, and the
  cells of \<open>w\<close> that round \<open>i\<close> wrote: those between the values of \<open>j\<close> before
  and after that round, read when the loop has ended.
\<close>

definition rounds :: "iovec list \<Rightarrow> nat \<Rightarrow> nat \<Rightarrow> outcome + enc_state" where
  "rounds iov n i =
     encode_loop iov i 0 \<lparr>w = replicate (5 * n) None, l = replicate n None, j = 0\<rparr>"

definition emitted :: "iovec list \<Rightarrow> nat \<Rightarrow> nat \<Rightarrow> seg option list option" where
  "emitted iov n i =
     (case (rounds iov n i, rounds iov n (i + 1), encode iov n) of
        (Inr a, Inr b, Inr st) \<Rightarrow> Some (drop (j a) (take (j b) (w st)))
      | _ \<Rightarrow> None)"

section \<open>What the loop writes, in closed form\<close>

text \<open>
  The segments that one round of the loop appends to \<open>w\<close> for a well-formed field at
  index \<open>i\<close>, the length word that it stores in \<open>l[i]\<close>, and the segments of the
  rounds \<open>i, ..., n - 1\<close>. They are read off the loop body and proved below to be what
  \<open>encode_iov\<close> and \<open>encode_loop\<close> compute.
\<close>

definition field_segs :: "nat \<Rightarrow> iovec \<Rightarrow> seg list" where
  "field_segs i f =
     (if NL \<in> set f
      then [\<lparr>iov_base = Iov_ptr i 0, iov_len = length (spec_name f)\<rparr>,
            IOVEC_SET_STRING_newline,
            \<lparr>iov_base = Len_ptr i, iov_len = 8\<rparr>,
            \<lparr>iov_base = Iov_ptr i (length (spec_name f) + 1),
             iov_len = length f - length (spec_name f) - 1\<rparr>,
            IOVEC_SET_STRING_newline]
      else [\<lparr>iov_base = Iov_ptr i 0, iov_len = length f\<rparr>, IOVEC_SET_STRING_newline])"

definition field_len :: "iovec \<Rightarrow> byte list option" where
  "field_len f =
     (if NL \<in> set f then Some (htole64 (of_nat (length f - length (spec_name f) - 1)))
      else None)"

definition segs_range :: "iovec list \<Rightarrow> nat \<Rightarrow> nat \<Rightarrow> seg list" where
  "segs_range iov i n = concat (map (\<lambda>k. field_segs k (iov ! k)) [i..<n])"

section \<open>Properties\<close>

subsection \<open>The C library functions\<close>

lemma memchr_None: "memchr xs c = None \<longleftrightarrow> c \<notin> set xs"
  by (induction xs) auto

lemma memchr_takeWhile:
  "memchr xs c = (if c \<in> set xs then Some (length (takeWhile (\<lambda>b. b \<noteq> c) xs)) else None)"
  by (induction xs) auto

subsection \<open>The fields of the specification and the tests of the loop\<close>

lemma nl_before_eq:
  "NL \<in> set f \<Longrightarrow> EQ \<in> set f \<Longrightarrow>
   length (takeWhile (\<lambda>b. b \<noteq> NL) f) < length (takeWhile (\<lambda>b. b \<noteq> EQ) f)
     \<longleftrightarrow> NL \<in> set (spec_name f)"
  unfolding spec_name_def by (induction f) (auto simp: NL_def EQ_def)

lemma spec_split: "EQ \<in> set f \<Longrightarrow> f = spec_name f @ EQ # spec_value f"
proof -
  assume a: "EQ \<in> set f"
  have "f = takeWhile (\<lambda>b. b \<noteq> EQ) f @ dropWhile (\<lambda>b. b \<noteq> EQ) f" by simp
  moreover from a have "dropWhile (\<lambda>b. b \<noteq> EQ) f \<noteq> []" by (simp add: dropWhile_eq_Nil_conv)
  then have "dropWhile (\<lambda>b. b \<noteq> EQ) f = EQ # tl (dropWhile (\<lambda>b. b \<noteq> EQ) f)"
    using hd_dropWhile [of "\<lambda>b. b \<noteq> EQ" f] by (cases "dropWhile (\<lambda>b. b \<noteq> EQ) f") auto
  moreover have "tl (dropWhile (\<lambda>b. b \<noteq> EQ) f) = spec_value f"
    by (simp add: spec_value_def spec_name_def dropWhile_eq_drop drop_Suc tl_drop)
  ultimately show ?thesis unfolding spec_name_def by metis
qed

lemma spec_name_length: "EQ \<in> set f \<Longrightarrow> length (spec_name f) < length f"
  using spec_split [of f] by (metis length_append length_Cons less_add_Suc1 add_Suc_right)

lemma spec_value_length: "EQ \<in> set f \<Longrightarrow> length (spec_value f) = length f - length (spec_name f) - 1"
  by (simp add: spec_value_def)

lemma wf_newline: "spec_well_formed f \<Longrightarrow> NL \<in> set f \<longleftrightarrow> NL \<in> set (spec_value f)"
proof -
  assume a: "spec_well_formed f"
  then have "set f = set (spec_name f) \<union> {EQ} \<union> set (spec_value f)"
    using spec_split [of f] by (metis spec_well_formed_def set_append list.simps(15) Un_insert_right Un_insert_left sup_bot.right_neutral Un_assoc insert_is_Un)
  with a show ?thesis by (auto simp: spec_well_formed_def NL_def EQ_def)
qed

subsection \<open>One round of the loop\<close>

lemma put_seg_ok:
  "j st < length (w st) \<Longrightarrow>
   put_seg s st = Inr (st\<lparr>w := (w st)[j st := Some s], j := Suc (j st)\<rparr>)"
  by (simp add: put_seg_def)

lemma put_len_ok:
  "i < length (l st) \<Longrightarrow> put_len i v st = Inr (st\<lparr>l := (l st)[i := Some v]\<rparr>)"
  by (simp add: put_len_def)

lemma take_Suc_update: "n < length xs \<Longrightarrow> take (Suc n) (xs[n := a]) = take n xs @ [a]"
  by (simp add: take_Suc_conv_app_nth)

lemma encode_iov_malformed:
  "i < length iov \<Longrightarrow> \<not> spec_well_formed (iov ! i) \<Longrightarrow>
   encode_iov iov i st = Inl (Return (- EINVAL))"
  using nl_before_eq [of "iov ! i"]
  by (auto simp: encode_iov_def memchr_takeWhile spec_well_formed_def spec_name_def
      bind_outcome_def dest: set_takeWhileD)

lemma encode_iov_well_formed:
  assumes "i < length iov" and "spec_well_formed (iov ! i)"
    and "j st + 5 \<le> length (w st)" and "i < length (l st)"
  shows "\<exists>st'. encode_iov iov i st = Inr st' \<and>
           take (j st') (w st') = take (j st) (w st) @ map Some (field_segs i (iov ! i)) \<and>
           j st' = j st + length (field_segs i (iov ! i)) \<and>
           length (w st') = length (w st) \<and>
           l st' = (case field_len (iov ! i) of None \<Rightarrow> l st | Some v \<Rightarrow> (l st)[i := Some v])"
proof (cases "NL \<in> set (iov ! i)")
  case True
  with assms(2) have "\<not> length (takeWhile (\<lambda>b. b \<noteq> NL) (iov ! i))
      < length (takeWhile (\<lambda>b. b \<noteq> EQ) (iov ! i))"
    using nl_before_eq [of "iov ! i"] by (simp add: spec_well_formed_def)
  with True assms show ?thesis
    by (simp add: encode_iov_def memchr_takeWhile spec_well_formed_def bind_outcome_def
        put_seg_ok put_len_ok field_segs_def field_len_def take_Suc_update spec_name_def)
next
  case False
  with assms show ?thesis
    by (simp add: encode_iov_def memchr_takeWhile spec_well_formed_def bind_outcome_def
        put_seg_ok put_len_ok field_segs_def field_len_def take_Suc_update spec_name_def)
qed

subsection \<open>The loop\<close>

lemma length_field_segs: "length (field_segs i f) = (if NL \<in> set f then 5 else 2)"
  by (simp add: field_segs_def)

lemma segs_range_step: "i < n \<Longrightarrow> segs_range iov i n = field_segs i (iov ! i) @ segs_range iov (Suc i) n"
  by (simp add: segs_range_def upt_conv_Cons)

lemma encode_loop_done: "n \<le> i \<Longrightarrow> encode_loop iov n i st = Inr st"
  by (subst encode_loop.simps) simp

text \<open>The two blocks of lines 135 and 136 are 88 bytes for each field.\<close>

lemma arrays_obtained_iff:
  "arrays_obtained room n \<longleftrightarrow> 88 * n \<le> room \<and> 5 * n \<le> INT_MAX"
  by (auto simp: arrays_obtained_def alloca_def split: option.splits if_splits)

lemma encode_loop_split:
  "i \<le> m \<Longrightarrow> m \<le> n \<Longrightarrow>
   encode_loop iov n i st = bind_outcome (encode_loop iov m i st) (encode_loop iov n m)"
proof (induction "m - i" arbitrary: i st)
  case 0
  then show ?case by (simp add: encode_loop_done bind_outcome_def)
next
  case (Suc d)
  then have lt: "i < m" "i < n" by simp_all
  have ih: "encode_loop iov n (i + 1) st' =
      bind_outcome (encode_loop iov m (i + 1) st') (encode_loop iov n m)" for st'
    using Suc by (intro Suc.hyps(1)) simp_all
  show ?case
  proof (cases "encode_iov iov i st")
    case (Inl e)
    with lt show ?thesis
      by (simp add: encode_loop.simps [of iov n i] encode_loop.simps [of iov m i]
          bind_outcome_def)
  next
    case (Inr st')
    with lt ih [of st'] show ?thesis
      by (simp add: encode_loop.simps [of iov n i] encode_loop.simps [of iov m i])
  qed
qed

text \<open>
  \<open>rounds iov n i\<close> is the state of the call for \<open>n\<close> fields when \<open>i\<close> rounds are
  done: the call goes on from it with round \<open>i\<close>.
\<close>

lemma encode_rounds:
  "i \<le> n \<Longrightarrow> encode iov n = bind_outcome (rounds iov n i) (encode_loop iov n i)"
  unfolding encode_def rounds_def by (rule encode_loop_split) simp_all

lemma encode_loop_well_formed:
  assumes "\<forall>k. i \<le> k \<and> k < n \<longrightarrow> spec_well_formed (iov ! k)"
    and "n \<le> length iov" and "i \<le> n"
    and "j st + 5 * (n - i) \<le> length (w st)" and "n \<le> length (l st)"
    and "\<forall>k. i \<le> k \<and> k < n \<longrightarrow> l st ! k = None"
  shows "\<exists>st'. encode_loop iov n i st = Inr st' \<and>
           take (j st') (w st') = take (j st) (w st) @ map Some (segs_range iov i n) \<and>
           j st' = j st + length (segs_range iov i n) \<and>
           length (w st') = length (w st) \<and> length (l st') = length (l st) \<and>
           (\<forall>k<length (l st).
              l st' ! k = (if i \<le> k \<and> k < n then field_len (iov ! k) else l st ! k))"
  using assms
proof (induction "n - i" arbitrary: i st)
  case 0
  then have "i = n" by simp
  then show ?case using "0.prems" by (auto simp: segs_range_def encode_loop_done)
next
  case (Suc m)
  then have lt: "i < n" by simp
  with Suc.prems have "i < length iov" and "spec_well_formed (iov ! i)"
    and "j st + 5 \<le> length (w st)" and "i < length (l st)"
    by auto
  from encode_iov_well_formed [OF this] obtain st1 where
    body: "encode_iov iov i st = Inr st1"
    and w1: "take (j st1) (w st1) = take (j st) (w st) @ map Some (field_segs i (iov ! i))"
    and j1: "j st1 = j st + length (field_segs i (iov ! i))"
    and lw1: "length (w st1) = length (w st)"
    and l1: "l st1 = (case field_len (iov ! i) of None \<Rightarrow> l st | Some v \<Rightarrow> (l st)[i := Some v])"
    by blast
  have le5: "length (field_segs i (iov ! i)) \<le> 5"
    by (simp add: length_field_segs)
  have ll1: "length (l st1) = length (l st)"
    using l1 by (simp split: option.splits)
  have li: "l st1 ! i = field_len (iov ! i)"
    using l1 Suc.prems(5,6) lt by (auto split: option.splits)
  have lk: "l st1 ! k = l st ! k" if "k \<noteq> i" for k
    using l1 that by (simp split: option.splits)
  have "\<exists>st'. encode_loop iov n (Suc i) st1 = Inr st' \<and>
           take (j st') (w st') = take (j st1) (w st1) @ map Some (segs_range iov (Suc i) n) \<and>
           j st' = j st1 + length (segs_range iov (Suc i) n) \<and>
           length (w st') = length (w st1) \<and> length (l st') = length (l st1) \<and>
           (\<forall>k<length (l st1).
              l st' ! k = (if Suc i \<le> k \<and> k < n then field_len (iov ! k) else l st1 ! k))"
  proof (rule Suc.hyps(1))
    show "m = n - Suc i" using Suc.hyps(2) by simp
    show "\<forall>k. Suc i \<le> k \<and> k < n \<longrightarrow> spec_well_formed (iov ! k)" using Suc.prems(1) by simp
    show "n \<le> length iov" by fact
    show "Suc i \<le> n" using lt by simp
    show "j st1 + 5 * (n - Suc i) \<le> length (w st1)"
      using j1 le5 lw1 Suc.prems(4) lt by simp
    show "n \<le> length (l st1)" using ll1 Suc.prems(5) by simp
    show "\<forall>k. Suc i \<le> k \<and> k < n \<longrightarrow> l st1 ! k = None"
      using lk Suc.prems(6) by simp
  qed
  then obtain st' where
    loop: "encode_loop iov n (Suc i) st1 = Inr st'"
    and w': "take (j st') (w st') = take (j st1) (w st1) @ map Some (segs_range iov (Suc i) n)"
    and j': "j st' = j st1 + length (segs_range iov (Suc i) n)"
    and lw': "length (w st') = length (w st1)" and ll': "length (l st') = length (l st1)"
    and l': "\<forall>k<length (l st1).
        l st' ! k = (if Suc i \<le> k \<and> k < n then field_len (iov ! k) else l st1 ! k)"
    by blast
  have "encode_loop iov n i st = Inr st'"
    using lt body loop by (subst encode_loop.simps) simp
  moreover have "take (j st') (w st') = take (j st) (w st) @ map Some (segs_range iov i n)"
    using w' w1 lt by (simp add: segs_range_step)
  moreover have "j st' = j st + length (segs_range iov i n)"
    using j' j1 lt by (simp add: segs_range_step)
  moreover have "\<forall>k<length (l st).
      l st' ! k = (if i \<le> k \<and> k < n then field_len (iov ! k) else l st ! k)"
  proof (intro allI impI)
    fix k assume "k < length (l st)"
    then show "l st' ! k = (if i \<le> k \<and> k < n then field_len (iov ! k) else l st ! k)"
      using l' li lk [of k] ll1 lt by (cases "k = i") auto
  qed
  ultimately show ?case using lw' lw1 ll' ll1 by simp
qed

lemma encode_loop_stops:
  assumes "\<forall>k. i \<le> k \<and> k < m \<longrightarrow> k < length iov \<and> spec_well_formed (iov ! k)"
    and "\<forall>st. encode_iov iov m st = Inl e"
    and "i \<le> m" and "m < n"
    and "j st + 5 * (m - i) \<le> length (w st)" and "m \<le> length (l st)"
  shows "encode_loop iov n i st = Inl e"
  using assms
proof (induction "m - i" arbitrary: i st)
  case 0
  then have "i = m" by simp
  with 0 show ?case
    by (subst encode_loop.simps) simp
next
  case (Suc d)
  then have lt: "i < m" by simp
  with Suc.prems have "i < length iov" and "spec_well_formed (iov ! i)"
    and "j st + 5 \<le> length (w st)" and "i < length (l st)"
    by auto
  from encode_iov_well_formed [OF this] obtain st1 where
    body: "encode_iov iov i st = Inr st1"
    and j1: "j st1 = j st + length (field_segs i (iov ! i))"
    and lw1: "length (w st1) = length (w st)"
    and l1: "l st1 = (case field_len (iov ! i) of None \<Rightarrow> l st | Some v \<Rightarrow> (l st)[i := Some v])"
    by blast
  have le5: "length (field_segs i (iov ! i)) \<le> 5"
    by (simp add: length_field_segs)
  have "encode_loop iov n (Suc i) st1 = Inl e"
  proof (rule Suc.hyps(1))
    show "d = m - Suc i" using Suc.hyps(2) by simp
    show "\<forall>k. Suc i \<le> k \<and> k < m \<longrightarrow> k < length iov \<and> spec_well_formed (iov ! k)"
      using Suc.prems(1) by simp
    show "\<forall>st. encode_iov iov m st = Inl e" by fact
    show "Suc i \<le> m" using lt by simp
    show "m < n" by fact
    show "j st1 + 5 * (m - Suc i) \<le> length (w st1)"
      using j1 le5 lw1 Suc.prems(5) lt by simp
    show "m \<le> length (l st1)"
      using l1 Suc.prems(6) by (simp split: option.splits)
  qed
  then show ?case
    using lt Suc.prems(4) body by (subst encode_loop.simps) simp
qed

lemma encode_loop_malformed:
  assumes "\<forall>k. i \<le> k \<and> k < m \<longrightarrow> spec_well_formed (iov ! k)"
    and "\<not> spec_well_formed (iov ! m)"
    and "i \<le> m" and "m < n" and "m < length iov"
    and "j st + 5 * (m - i) \<le> length (w st)" and "m \<le> length (l st)"
  shows "encode_loop iov n i st = Inl (Return (- EINVAL))"
proof (rule encode_loop_stops [where m = m])
  show "\<forall>k. i \<le> k \<and> k < m \<longrightarrow> k < length iov \<and> spec_well_formed (iov ! k)"
    using assms(1,5) by simp
  show "\<forall>st. encode_iov iov m st = Inl (Return (- EINVAL))"
    using assms(2,5) by (simp add: encode_iov_malformed)
qed (use assms in simp_all)

lemma encode_loop_out_of_range:
  assumes "\<forall>k. i \<le> k \<and> k < length iov \<longrightarrow> spec_well_formed (iov ! k)"
    and "i \<le> length iov" and "length iov < n"
    and "j st + 5 * (length iov - i) \<le> length (w st)" and "length iov \<le> length (l st)"
  shows "encode_loop iov n i st = Inl Fault"
proof (rule encode_loop_stops [where m = "length iov"])
  show "\<forall>k. i \<le> k \<and> k < length iov \<longrightarrow> k < length iov \<and> spec_well_formed (iov ! k)"
    using assms(1) by simp
  show "\<forall>st. encode_iov iov (length iov) st = Inl Fault"
    by (simp add: encode_iov_def)
qed (use assms in simp_all)

lemma encode_well_formed:
  assumes "\<forall>f\<in>set fs. spec_well_formed f"
  shows "\<exists>st. encode fs (length fs) = Inr st \<and>
           take (j st) (w st) = map Some (segs_range fs 0 (length fs)) \<and>
           j st = length (segs_range fs 0 (length fs)) \<and>
           length (w st) = 5 * length fs \<and> l st = map field_len fs"
proof -
  let ?st0 = "\<lparr>w = replicate (5 * length fs) None, l = replicate (length fs) None, j = 0\<rparr>"
  have "\<exists>st'. encode_loop fs (length fs) 0 ?st0 = Inr st' \<and>
           take (j st') (w st') = take (j ?st0) (w ?st0) @ map Some (segs_range fs 0 (length fs)) \<and>
           j st' = j ?st0 + length (segs_range fs 0 (length fs)) \<and>
           length (w st') = length (w ?st0) \<and> length (l st') = length (l ?st0) \<and>
           (\<forall>k<length (l ?st0).
              l st' ! k = (if 0 \<le> k \<and> k < length fs then field_len (fs ! k) else l ?st0 ! k))"
    using assms by (intro encode_loop_well_formed) simp_all
  then obtain st where st: "encode fs (length fs) = Inr st"
    "take (j st) (w st) = map Some (segs_range fs 0 (length fs))"
    "j st = length (segs_range fs 0 (length fs))"
    "length (w st) = 5 * length fs" "length (l st) = length fs"
    "\<forall>k<length fs. l st ! k = field_len (fs ! k)"
    by (auto simp: encode_def)
  then have "l st = map field_len fs"
    by (intro nth_equalityI) simp_all
  with st show ?thesis by blast
qed

subsection \<open>Little-endian lengths\<close>

lemma unat_byte_of_nat: "unat (of_nat n :: byte) = n mod 256"
  by (simp add: unat_of_nat)

lemma spec_le_value_bytes: "spec_le_value (spec_le_bytes k n) = n mod 256 ^ k"
proof (induction k arbitrary: n)
  case 0
  then show ?case by simp
next
  case (Suc k)
  have "n mod 256 + 256 * (n div 256 mod 256 ^ k) = n mod (256 * 256 ^ k)"
    by (simp add: mod_mult2_eq)
  with Suc show ?case by (simp add: unat_byte_of_nat)
qed

lemma length_spec_le_bytes: "length (spec_le_bytes k n) = k"
  by (induction k arbitrary: n) simp_all

lemma ucast_drop_bit_byte:
  "(ucast (drop_bit m (v :: 64 word)) :: byte) = of_nat (unat v div 2 ^ m)"
  by (metis drop_bit_eq_div of_nat_unat unat_drop_bit_eq)

lemma upt_8: "[0..<8] = [0, 1, 2, 3, 4, 5, 6, 7]"
  by code_simp

lemma byte_of_nat_mod: "(of_nat (n mod 256) :: byte) = of_nat n"
  by (metis mod_mod_trivial unat_byte_of_nat word_eq_iff_unsigned)

lemma spec_le_bytes_mod: "spec_le_bytes k (n mod 256 ^ k) = spec_le_bytes k n"
proof (induction k arbitrary: n)
  case 0
  then show ?case by simp
next
  case (Suc k)
  have a: "n mod (256 * 256 ^ k) mod 256 = n mod 256"
    by (simp add: mod_mod_cancel)
  have "n mod (256 * 256 ^ k) = 256 * (n div 256 mod 256 ^ k) + n mod 256"
    by (rule mod_mult2_eq)
  then have b: "n mod (256 * 256 ^ k) div 256 = n div 256 mod 256 ^ k"
    by simp
  show ?case using Suc [of "n div 256"] by (simp add: a b)
qed

lemma spec_le_bytes_map: "spec_le_bytes k m = map (\<lambda>i. of_nat (m div 256 ^ i)) [0..<k]"
proof (induction k arbitrary: m)
  case 0
  then show ?case by simp
next
  case (Suc k)
  have "[0..<Suc k] = 0 # map Suc [0..<k]"
    by (simp add: upt_conv_Cons map_Suc_upt del: upt_Suc)
  then show ?case
    using Suc [of "m div 256"]
    by (simp add: byte_of_nat_mod div_mult2_eq del: upt_Suc)
qed

lemma htole64_unat: "htole64 v = spec_le_bytes 8 (unat v)"
proof -
  have "(2 :: nat) ^ (8 * k) = 256 ^ k" for k
    by (simp add: power_mult)
  then show ?thesis
    by (simp add: htole64_def ucast_drop_bit_byte spec_le_bytes_map)
qed

lemma htole64_of_nat: "htole64 (of_nat n) = spec_le_bytes 8 n"
  using spec_le_bytes_mod [of 8 n] by (simp add: htole64_unat unat_of_nat take_bit_eq_mod)

lemma length_htole64: "length (htole64 v) = 8"
  by (simp add: htole64_def)

subsection \<open>The bytes behind the segments\<close>

lemma gather_append:
  "gather iov la (xs @ ys) =
     (case gather iov la xs of None \<Rightarrow> None | Some a \<Rightarrow> map_option ((@) a) (gather iov la ys))"
proof (induction xs)
  case Nil
  then show ?case by (cases "gather iov la ys") simp_all
next
  case (Cons x xs)
  then show ?case
    by (cases x; cases "gather iov la ys") (auto split: option.splits)
qed

lemma gather_concat:
  "\<forall>k\<in>set ks. gather iov la (map Some (F k)) = Some (G k) \<Longrightarrow>
   gather iov la (map Some (concat (map F ks))) = Some (concat (map G ks))"
  by (induction ks) (simp_all add: gather_append)

lemma spec_name_take: "take (length (spec_name f)) f = spec_name f"
  by (simp add: spec_name_def takeWhile_eq_take [symmetric])

lemma deref_name:
  "k < length iov \<Longrightarrow> EQ \<in> set (iov ! k) \<Longrightarrow>
   deref iov la \<lparr>iov_base = Iov_ptr k 0, iov_len = length (spec_name (iov ! k))\<rparr>
     = Some (spec_name (iov ! k))"
  using spec_name_length [of "iov ! k"] by (simp add: deref_def spec_name_take)

lemma deref_value:
  "k < length iov \<Longrightarrow> EQ \<in> set (iov ! k) \<Longrightarrow>
   deref iov la \<lparr>iov_base = Iov_ptr k (Suc (length (spec_name (iov ! k)))),
                 iov_len = length (iov ! k) - Suc (length (spec_name (iov ! k)))\<rparr>
     = Some (spec_value (iov ! k))"
  using spec_name_length [of "iov ! k"] by (simp add: deref_def spec_value_def)

lemma deref_whole:
  "k < length iov \<Longrightarrow>
   deref iov la \<lparr>iov_base = Iov_ptr k 0, iov_len = length (iov ! k)\<rparr> = Some (iov ! k)"
  by (simp add: deref_def)

lemma deref_newline: "deref iov la IOVEC_SET_STRING_newline = Some [NL]"
  by (simp add: deref_def IOVEC_SET_STRING_newline_def)

lemma deref_len:
  "k < length la \<Longrightarrow> la ! k = Some (htole64 v) \<Longrightarrow>
   deref iov la \<lparr>iov_base = Len_ptr k, iov_len = 8\<rparr> = Some (htole64 v)"
  by (simp add: deref_def length_htole64)

lemma gather_field:
  assumes "k < length iov" and "spec_well_formed (iov ! k)"
    and "k < length la" and "la ! k = field_len (iov ! k)"
  shows "gather iov la (map Some (field_segs k (iov ! k))) = Some (spec_field (iov ! k))"
proof (cases "NL \<in> set (iov ! k)")
  case True
  from assms(2) have eq: "EQ \<in> set (iov ! k)" by (simp add: spec_well_formed_def)
  from True assms(4) have "la ! k = Some (htole64 (of_nat (length (spec_value (iov ! k)))))"
    by (simp add: field_len_def spec_value_length [OF eq])
  with assms(3)
  have d3: "deref iov la \<lparr>iov_base = Len_ptr k, iov_len = 8\<rparr>
      = Some (spec_le_bytes 8 (length (spec_value (iov ! k))))"
    by (simp add: deref_def htole64_of_nat length_spec_le_bytes)
  from True wf_newline [OF assms(2)] have "NL \<in> set (spec_value (iov ! k))" by simp
  with True assms(1) eq show ?thesis
    by (simp add: field_segs_def deref_name deref_value deref_newline d3
        spec_field_def spec_binary_safe_def)
next
  case False
  from assms(2) have eq: "EQ \<in> set (iov ! k)" by (simp add: spec_well_formed_def)
  have "spec_name (iov ! k) @ EQ # spec_value (iov ! k) = iov ! k"
    using spec_split [OF eq] by simp
  with False assms show ?thesis
    using wf_newline [OF assms(2)]
    by (simp add: field_segs_def deref_whole deref_newline spec_field_def spec_simple_def)
qed

lemma spec_record_nth: "concat (map (\<lambda>k. spec_field (fs ! k)) [0..<length fs]) = spec_record fs"
proof -
  have "map (\<lambda>k. spec_field (fs ! k)) [0..<length fs] = map spec_field fs"
    by (intro nth_equalityI) simp_all
  then show ?thesis by (simp add: spec_record_def)
qed

lemma payload_well_formed:
  assumes "\<forall>f\<in>set fs. spec_well_formed f" and "encode fs (length fs) = Inr st"
  shows "payload fs st = Some (spec_record fs)"
proof -
  from encode_well_formed [OF assms(1)] assms(2) have
    w: "take (j st) (w st) = map Some (segs_range fs 0 (length fs))"
    and la: "l st = map field_len fs"
    by auto
  have "\<forall>k\<in>set [0..<length fs].
          gather fs (l st) (map Some (field_segs k (fs ! k))) = Some (spec_field (fs ! k))"
    using assms(1) la by (auto intro!: gather_field)
  then have "gather fs (l st) (map Some (segs_range fs 0 (length fs))) =
      Some (concat (map (\<lambda>k. spec_field (fs ! k)) [0..<length fs]))"
    unfolding segs_range_def by (rule gather_concat)
  then show ?thesis by (simp add: payload_def w spec_record_nth)
qed

subsection \<open>The segments of one round\<close>

lemma segs_range_split:
  "i \<le> m \<Longrightarrow> m \<le> n \<Longrightarrow> segs_range iov i n = segs_range iov i m @ segs_range iov m n"
proof -
  assume "i \<le> m" "m \<le> n"
  then have "[i..<n] = [i..<m] @ [m..<n]"
    by (metis le_Suc_ex upt_add_eq_append)
  then show ?thesis by (simp add: segs_range_def)
qed

lemma rounds_well_formed:
  assumes "\<forall>f\<in>set fs. spec_well_formed f" and "i \<le> length fs"
  shows "\<exists>a. rounds fs (length fs) i = Inr a \<and> j a = length (segs_range fs 0 i)"
proof -
  let ?st0 = "\<lparr>w = replicate (5 * length fs) None, l = replicate (length fs) None, j = 0\<rparr>"
  have "\<exists>st'. encode_loop fs i 0 ?st0 = Inr st' \<and>
           take (j st') (w st') = take (j ?st0) (w ?st0) @ map Some (segs_range fs 0 i) \<and>
           j st' = j ?st0 + length (segs_range fs 0 i) \<and>
           length (w st') = length (w ?st0) \<and> length (l st') = length (l ?st0) \<and>
           (\<forall>k<length (l ?st0).
              l st' ! k = (if 0 \<le> k \<and> k < i then field_len (fs ! k) else l ?st0 ! k))"
    using assms by (intro encode_loop_well_formed) simp_all
  then show ?thesis by (auto simp: rounds_def)
qed

lemma emitted_well_formed:
  assumes "\<forall>f\<in>set fs. spec_well_formed f" and "i < length fs"
  shows "emitted fs (length fs) i = Some (map Some (field_segs i (fs ! i)))"
proof -
  from rounds_well_formed [OF assms(1), of i] assms(2) obtain a where
    a: "rounds fs (length fs) i = Inr a" "j a = length (segs_range fs 0 i)" by auto
  from rounds_well_formed [OF assms(1), of "Suc i"] assms(2) obtain b where
    b: "rounds fs (length fs) (Suc i) = Inr b" "j b = length (segs_range fs 0 (Suc i))" by auto
  from encode_well_formed [OF assms(1)] obtain st where
    st: "encode fs (length fs) = Inr st"
    "take (j st) (w st) = map Some (segs_range fs 0 (length fs))"
    "j st = length (segs_range fs 0 (length fs))" by auto
  have s1: "segs_range fs 0 (length fs) = segs_range fs 0 (Suc i) @ segs_range fs (Suc i) (length fs)"
    using assms(2) by (intro segs_range_split) simp_all
  have s2: "segs_range fs 0 (Suc i) = segs_range fs 0 i @ field_segs i (fs ! i)"
    by (simp add: segs_range_def)
  have "j b \<le> j st" using b(2) st(3) s1 by simp
  then have "take (j b) (w st) = take (j b) (take (j st) (w st))"
    by (simp add: min_def)
  also have "\<dots> = map Some (segs_range fs 0 (Suc i))"
    using st(2) b(2) s1 by simp
  finally have "drop (j a) (take (j b) (w st)) = map Some (field_segs i (fs ! i))"
    using a(2) s2 by simp
  with a(1) b(1) st(1) show ?thesis by (simp add: emitted_def)
qed

lemma spec_malformed_iff: "spec_malformed f \<longleftrightarrow> \<not> spec_well_formed f"
proof -
  have "(\<exists>k<length f. f ! k = NL \<and> EQ \<notin> set (take k f)) \<longleftrightarrow> NL \<in> set (spec_name f)"
    if "EQ \<in> set f"
  proof
    assume "\<exists>k<length f. f ! k = NL \<and> EQ \<notin> set (take k f)"
    then obtain k where k: "k < length f" "f ! k = NL" "EQ \<notin> set (take k f)" by blast
    have "k < length (spec_name f)"
    proof (rule ccontr)
      assume "\<not> k < length (spec_name f)"
      then have "length (spec_name f) < k \<or> length (spec_name f) = k" by auto
      moreover have "f ! length (spec_name f) = EQ"
        using spec_split [OF that] by (metis nth_append_length)
      ultimately show False
        using k by (auto simp: in_set_conv_nth NL_def EQ_def)
    qed
    then have "spec_name f ! k = f ! k"
      unfolding spec_name_def by (rule takeWhile_nth)
    with k \<open>k < length (spec_name f)\<close> show "NL \<in> set (spec_name f)"
      by (metis nth_mem)
  next
    assume "NL \<in> set (spec_name f)"
    then obtain k where k: "k < length (spec_name f)" "spec_name f ! k = NL"
      by (auto simp: in_set_conv_nth)
    then have "f ! k = NL" unfolding spec_name_def by (simp add: takeWhile_nth)
    moreover have "k < length f" using k(1) spec_name_length [OF that] by simp
    moreover have "take k f = take k (spec_name f)"
      using k(1) spec_split [OF that] by (metis less_imp_le_nat take_append take_all_iff append_Nil2 diff_is_0_eq take_0 order_refl)
    then have "EQ \<notin> set (take k f)"
      unfolding spec_name_def by (auto dest!: in_set_takeD set_takeWhileD)
    ultimately show "\<exists>k<length f. f ! k = NL \<and> EQ \<notin> set (take k f)" by blast
  qed
  then show ?thesis by (auto simp: spec_malformed_def spec_well_formed_def)
qed

subsection \<open>Claim C1: the binary-safe encoding of a field\<close>

text \<open>
  Claim C1, as amended. In a list of fields that are all well-formed (each has an
  \<^verbatim>\<open>=\<close> and no newline before the first one), for a field at index \<open>i\<close> whose value
  has a newline, and whose length fits \<^verbatim>\<open>size_t\<close>, the loop writes for that field exactly
  five segments, in this order: the name bytes up to the first \<^verbatim>\<open>=\<close>, read from the
  caller's buffer; the one byte newline; the eight bytes of \<^verbatim>\<open>l[i]\<close>, which are the
  little-endian form of the length of the value; the value bytes, read from the caller's
  buffer behind the \<^verbatim>\<open>=\<close>; and the one byte newline.
\<close>

theorem binary_safe_field_encoding:
  assumes "\<forall>f\<in>set fs. spec_well_formed f" and "i < length fs"
    and "NL \<in> set (spec_value (fs ! i))" and "length (fs ! i) < 2 ^ 64"
  shows "\<exists>st. encode fs (length fs) = Inr st \<and>
    emitted fs (length fs) i =
      Some [Some \<lparr>iov_base = Iov_ptr i 0, iov_len = length (spec_name (fs ! i))\<rparr>,
            Some IOVEC_SET_STRING_newline,
            Some \<lparr>iov_base = Len_ptr i, iov_len = 8\<rparr>,
            Some \<lparr>iov_base = Iov_ptr i (length (spec_name (fs ! i)) + 1),
                  iov_len = length (spec_value (fs ! i))\<rparr>,
            Some IOVEC_SET_STRING_newline] \<and>
    deref fs (l st) \<lparr>iov_base = Iov_ptr i 0, iov_len = length (spec_name (fs ! i))\<rparr>
      = Some (spec_name (fs ! i)) \<and>
    deref fs (l st) IOVEC_SET_STRING_newline = Some [NL] \<and>
    deref fs (l st) \<lparr>iov_base = Len_ptr i, iov_len = 8\<rparr>
      = Some (spec_le_bytes 8 (length (spec_value (fs ! i)))) \<and>
    length (spec_le_bytes 8 (length (spec_value (fs ! i)))) = 8 \<and>
    spec_le_value (spec_le_bytes 8 (length (spec_value (fs ! i)))) = length (spec_value (fs ! i)) \<and>
    deref fs (l st) \<lparr>iov_base = Iov_ptr i (length (spec_name (fs ! i)) + 1),
                      iov_len = length (spec_value (fs ! i))\<rparr>
      = Some (spec_value (fs ! i))"
proof -
  let ?f = "fs ! i"
  from assms(1,2) have wf: "spec_well_formed ?f" by simp
  then have eq: "EQ \<in> set ?f" by (simp add: spec_well_formed_def)
  from wf assms(3) have nl: "NL \<in> set ?f" by (simp add: wf_newline)
  from encode_well_formed [OF assms(1)] obtain st where
    st: "encode fs (length fs) = Inr st" "l st = map field_len fs" by auto
  have vl: "length (spec_value ?f) = length ?f - length (spec_name ?f) - 1"
    by (rule spec_value_length [OF eq])
  have "emitted fs (length fs) i = Some (map Some (field_segs i ?f))"
    by (rule emitted_well_formed [OF assms(1,2)])
  then have e: "emitted fs (length fs) i =
      Some [Some \<lparr>iov_base = Iov_ptr i 0, iov_len = length (spec_name ?f)\<rparr>,
            Some IOVEC_SET_STRING_newline,
            Some \<lparr>iov_base = Len_ptr i, iov_len = 8\<rparr>,
            Some \<lparr>iov_base = Iov_ptr i (length (spec_name ?f) + 1),
                  iov_len = length (spec_value ?f)\<rparr>,
            Some IOVEC_SET_STRING_newline]"
    using nl by (simp add: field_segs_def vl)
  have d1: "deref fs (l st) \<lparr>iov_base = Iov_ptr i 0, iov_len = length (spec_name ?f)\<rparr>
      = Some (spec_name ?f)"
    using assms(2) eq by (rule deref_name)
  have d3: "deref fs (l st) \<lparr>iov_base = Len_ptr i, iov_len = 8\<rparr>
      = Some (spec_le_bytes 8 (length (spec_value ?f)))"
    using assms(2) nl st(2)
    by (simp add: deref_def field_len_def htole64_of_nat length_spec_le_bytes vl)
  have d4: "deref fs (l st) \<lparr>iov_base = Iov_ptr i (length (spec_name ?f) + 1),
                      iov_len = length (spec_value ?f)\<rparr> = Some (spec_value ?f)"
    using deref_value [OF assms(2) eq, of "l st"] by (simp add: vl)
  have "length (spec_value ?f) < 2 ^ 64"
    using assms(4) vl by simp
  then have v: "spec_le_value (spec_le_bytes 8 (length (spec_value ?f))) = length (spec_value ?f)"
    by (simp add: spec_le_value_bytes)
  show ?thesis
    using st(1) e d1 d3 d4 v by (simp add: deref_newline length_spec_le_bytes)
qed


text \<open>
  The claim as first stated asks only for an \<^verbatim>\<open>=\<close> in the field and a newline in the
  value. The field \<^verbatim>\<open>"a\nb=c\nd"\<close> has both, and the loop returns \<^verbatim>\<open>-EINVAL\<close> for it
  (line 148), since its first newline stands before its first \<^verbatim>\<open>=\<close>.
\<close>

theorem binary_safe_field_encoding_counterexample:
  "EQ \<in> set [97, 10, 98, 61, 99, 10, 100 :: byte] \<and>
   NL \<in> set (spec_value [97, 10, 98, 61, 99, 10, 100]) \<and>
   encode [[97, 10, 98, 61, 99, 10, 100]] 1 = Inl (Return (- EINVAL))"
  by code_simp

text \<open>The theorem at the field \<^verbatim>\<open>"a=b\nc"\<close>, alone in its list.\<close>

theorem binary_safe_field_encoding_witness:
  "spec_well_formed [97, 61, 98, 10, 99] \<and> NL \<in> set (spec_value [97, 61, 98, 10, 99]) \<and>
   (\<exists>st. encode [[97, 61, 98, 10, 99]] 1 = Inr st \<and>
      emitted [[97, 61, 98, 10, 99]] 1 0 =
        Some [Some \<lparr>iov_base = Iov_ptr 0 0, iov_len = 1\<rparr>,
              Some IOVEC_SET_STRING_newline,
              Some \<lparr>iov_base = Len_ptr 0, iov_len = 8\<rparr>,
              Some \<lparr>iov_base = Iov_ptr 0 2, iov_len = 3\<rparr>,
              Some IOVEC_SET_STRING_newline] \<and>
      deref [[97, 61, 98, 10, 99]] (l st) \<lparr>iov_base = Iov_ptr 0 0, iov_len = 1\<rparr> = Some [97] \<and>
      deref [[97, 61, 98, 10, 99]] (l st) IOVEC_SET_STRING_newline = Some [NL] \<and>
      deref [[97, 61, 98, 10, 99]] (l st) \<lparr>iov_base = Len_ptr 0, iov_len = 8\<rparr>
        = Some [3, 0, 0, 0, 0, 0, 0, 0] \<and>
      length [3, 0, 0, 0, 0, 0, 0, 0 :: byte] = 8 \<and>
      spec_le_value [3, 0, 0, 0, 0, 0, 0, 0] = 3 \<and>
      deref [[97, 61, 98, 10, 99]] (l st) \<lparr>iov_base = Iov_ptr 0 2, iov_len = 3\<rparr>
        = Some [98, 10, 99])"
proof -
  have wf: "spec_well_formed [97, 61, 98, 10, 99]" by code_simp
  have nl: "NL \<in> set (spec_value [97, 61, 98, 10, 99])" by code_simp
  have h1: "\<forall>f\<in>set [[97, 61, 98, 10, 99]]. spec_well_formed f" using wf by simp
  have h2: "0 < length [[97, 61, 98, 10, 99 :: byte]]" by simp
  have h3: "NL \<in> set (spec_value ([[97, 61, 98, 10, 99]] ! 0))" using nl by simp
  have h4: "length ([[97, 61, 98, 10, 99 :: byte]] ! 0) < 2 ^ 64" by simp
  have e: "[[97, 61, 98, 10, 99 :: byte]] ! 0 = [97, 61, 98, 10, 99]"
    "length [[97, 61, 98, 10, 99 :: byte]] = 1"
    "spec_name [97, 61, 98, 10, 99] = [97]"
    "spec_value [97, 61, 98, 10, 99] = [98, 10, 99]"
    "length [97 :: byte] = 1" "length [98, 10, 99 :: byte] = 3" "(1 :: nat) + 1 = 2"
    "spec_le_bytes 8 3 = [3, 0, 0, 0, 0, 0, 0, 0]"
    by code_simp+
  note r = binary_safe_field_encoding [OF h1 h2 h3 h4, unfolded e]
  show ?thesis by (intro conjI wf nl r)
qed

subsection \<open>Claim C2: the simple encoding of a field\<close>

text \<open>
  Claim C2, as amended. In a list of fields that are all well-formed (each has an
  \<^verbatim>\<open>=\<close> and no newline before the first one), for a field at index \<open>i\<close> whose value
  has no newline, the loop writes for that field exactly two segments: the whole field,
  read from the caller's buffer, and the one byte newline. Together they are the bytes
  \<^verbatim>\<open>NAME=VALUE\n\<close>.
\<close>

theorem simple_field_encoding:
  assumes "\<forall>f\<in>set fs. spec_well_formed f" and "i < length fs"
    and "NL \<notin> set (spec_value (fs ! i))"
  shows "\<exists>st. encode fs (length fs) = Inr st \<and>
    emitted fs (length fs) i =
      Some [Some \<lparr>iov_base = Iov_ptr i 0, iov_len = length (fs ! i)\<rparr>,
            Some IOVEC_SET_STRING_newline] \<and>
    deref fs (l st) \<lparr>iov_base = Iov_ptr i 0, iov_len = length (fs ! i)\<rparr> = Some (fs ! i) \<and>
    deref fs (l st) IOVEC_SET_STRING_newline = Some [NL] \<and>
    fs ! i @ [NL] = spec_simple (spec_name (fs ! i)) (spec_value (fs ! i))"
proof -
  let ?f = "fs ! i"
  from assms(1,2) have wf: "spec_well_formed ?f" by simp
  then have eq: "EQ \<in> set ?f" by (simp add: spec_well_formed_def)
  from wf assms(3) have nl: "NL \<notin> set ?f" by (simp add: wf_newline)
  from encode_well_formed [OF assms(1)] obtain st where
    st: "encode fs (length fs) = Inr st" by auto
  have "emitted fs (length fs) i = Some (map Some (field_segs i ?f))"
    by (rule emitted_well_formed [OF assms(1,2)])
  then have e: "emitted fs (length fs) i =
      Some [Some \<lparr>iov_base = Iov_ptr i 0, iov_len = length ?f\<rparr>,
            Some IOVEC_SET_STRING_newline]"
    using nl by (simp add: field_segs_def)
  have s: "?f @ [NL] = spec_simple (spec_name ?f) (spec_value ?f)"
    using spec_split [OF eq] by (simp add: spec_simple_def)
  show ?thesis
    using st e s assms(2) by (simp add: deref_newline deref_whole)
qed


text \<open>
  The claim as first stated asks only for an \<^verbatim>\<open>=\<close> in the field and no newline in the
  value. The field \<^verbatim>\<open>"a\nb=c"\<close> has both, and the loop returns \<^verbatim>\<open>-EINVAL\<close> for it
  (line 148), since its newline stands before its first \<^verbatim>\<open>=\<close>.
\<close>

theorem simple_field_encoding_counterexample:
  "EQ \<in> set [97, 10, 98, 61, 99 :: byte] \<and>
   NL \<notin> set (spec_value [97, 10, 98, 61, 99]) \<and>
   encode [[97, 10, 98, 61, 99]] 1 = Inl (Return (- EINVAL))"
  by code_simp


text \<open>The theorem at the field \<^verbatim>\<open>"a=b"\<close>, alone in its list.\<close>

theorem simple_field_encoding_witness:
  "spec_well_formed [97, 61, 98] \<and> NL \<notin> set (spec_value [97, 61, 98]) \<and>
   (\<exists>st. encode [[97, 61, 98]] 1 = Inr st \<and>
      emitted [[97, 61, 98]] 1 0 =
        Some [Some \<lparr>iov_base = Iov_ptr 0 0, iov_len = 3\<rparr>, Some IOVEC_SET_STRING_newline] \<and>
      deref [[97, 61, 98]] (l st) \<lparr>iov_base = Iov_ptr 0 0, iov_len = 3\<rparr> = Some [97, 61, 98] \<and>
      deref [[97, 61, 98]] (l st) IOVEC_SET_STRING_newline = Some [NL] \<and>
      [97, 61, 98] @ [NL] = spec_simple [97] [98])"
proof -
  have wf: "spec_well_formed [97, 61, 98]" by code_simp
  have nl: "NL \<notin> set (spec_value [97, 61, 98])" by code_simp
  have h1: "\<forall>f\<in>set [[97, 61, 98]]. spec_well_formed f" using wf by simp
  have h2: "0 < length [[97, 61, 98 :: byte]]" by simp
  have h3: "NL \<notin> set (spec_value ([[97, 61, 98]] ! 0))" using nl by simp
  have e: "[[97, 61, 98 :: byte]] ! 0 = [97, 61, 98]"
    "length [[97, 61, 98 :: byte]] = 1"
    "spec_name [97, 61, 98] = [97]"
    "spec_value [97, 61, 98] = [98]"
    "length [97, 61, 98 :: byte] = 3"
    by code_simp+
  note r = simple_field_encoding [OF h1 h2 h3, unfolded e]
  show ?thesis by (intro conjI wf nl r)
qed


subsection \<open>Claim C4: which fields the loop rejects\<close>

lemma encode_loop_never_faults:
  assumes "n \<le> length iov" and "i \<le> n"
    and "j st + 5 * (n - i) \<le> length (w st)" and "n \<le> length (l st)"
    and "\<forall>k. i \<le> k \<and> k < n \<longrightarrow> l st ! k = None"
  shows "(\<forall>k. i \<le> k \<and> k < n \<longrightarrow> spec_well_formed (iov ! k)) \<and> (\<exists>st'. encode_loop iov n i st = Inr st')
       \<or> (\<exists>k. i \<le> k \<and> k < n \<and> \<not> spec_well_formed (iov ! k)) \<and>
          encode_loop iov n i st = Inl (Return (- EINVAL))"
proof (cases "\<forall>k. i \<le> k \<and> k < n \<longrightarrow> spec_well_formed (iov ! k)")
  case True
  with encode_loop_well_formed [OF True assms] show ?thesis by blast
next
  case False
  define m where "m = (LEAST k. i \<le> k \<and> k < n \<and> \<not> spec_well_formed (iov ! k))"
  from False have ex: "\<exists>k. i \<le> k \<and> k < n \<and> \<not> spec_well_formed (iov ! k)" by blast
  then have m: "i \<le> m \<and> m < n \<and> \<not> spec_well_formed (iov ! m)"
    unfolding m_def by (rule LeastI_ex)
  have before: "\<forall>k. i \<le> k \<and> k < m \<longrightarrow> spec_well_formed (iov ! k)"
  proof (intro allI impI)
    fix k assume k: "i \<le> k \<and> k < m"
    show "spec_well_formed (iov ! k)"
    proof (rule ccontr)
      assume "\<not> spec_well_formed (iov ! k)"
      with k m have "i \<le> k \<and> k < n \<and> \<not> spec_well_formed (iov ! k)" by simp
      then have "m \<le> k" unfolding m_def by (rule Least_le)
      with k show False by simp
    qed
  qed
  have "encode_loop iov n i st = Inl (Return (- EINVAL))"
    using before m assms by (intro encode_loop_malformed [of i m]) auto
  with ex show ?thesis by blast
qed

lemma encode_total:
  "(\<forall>f\<in>set fs. spec_well_formed f) \<and> (\<exists>st. encode fs (length fs) = Inr st)
   \<or> (\<exists>f\<in>set fs. \<not> spec_well_formed f) \<and> encode fs (length fs) = Inl (Return (- EINVAL))"
proof -
  let ?st0 = "\<lparr>w = replicate (5 * length fs) None, l = replicate (length fs) None, j = 0\<rparr>"
  have "(\<forall>k. 0 \<le> k \<and> k < length fs \<longrightarrow> spec_well_formed (fs ! k)) \<and>
          (\<exists>st'. encode_loop fs (length fs) 0 ?st0 = Inr st')
       \<or> (\<exists>k. 0 \<le> k \<and> k < length fs \<and> \<not> spec_well_formed (fs ! k)) \<and>
          encode_loop fs (length fs) 0 ?st0 = Inl (Return (- EINVAL))"
    by (rule encode_loop_never_faults) simp_all
  moreover have "(\<forall>k. 0 \<le> k \<and> k < length fs \<longrightarrow> spec_well_formed (fs ! k))
      \<longleftrightarrow> (\<forall>f\<in>set fs. spec_well_formed f)"
    by (simp add: all_set_conv_all_nth)
  ultimately show ?thesis
    unfolding encode_def by auto
qed

lemma encode_aborts:
  assumes "\<forall>f\<in>set pre. spec_well_formed f" and "\<not> spec_well_formed bad" and "length pre < n"
  shows "encode (pre @ bad # post) n = Inl (Return (- EINVAL))"
  unfolding encode_def
proof (rule encode_loop_malformed [where m = "length pre"])
  show "\<forall>k. 0 \<le> k \<and> k < length pre \<longrightarrow> spec_well_formed ((pre @ bad # post) ! k)"
    using assms(1) by (simp add: nth_append)
  show "\<not> spec_well_formed ((pre @ bad # post) ! length pre)"
    using assms(2) by simp
  show "j \<lparr>w = replicate (5 * n) None, l = replicate n None, j = 0\<rparr> + 5 * (length pre - 0)
      \<le> length (w \<lparr>w = replicate (5 * n) None, l = replicate n None, j = 0\<rparr>)"
    using assms(3) by simp
  show "length pre \<le> length (l \<lparr>w = replicate (5 * n) None, l = replicate n None, j = 0\<rparr>)"
    using assms(3) by simp
qed (use assms(3) in simp_all)


text \<open>
  Claim C4. For a list of \<open>n\<close> fields the loop returns \<^verbatim>\<open>-EINVAL\<close> if and only if
  some field is malformed: it has no \<^verbatim>\<open>=\<close>, or a newline stands before its first
  \<^verbatim>\<open>=\<close>. Otherwise it returns its segments, so a field with an \<^verbatim>\<open>=\<close> and no
  earlier newline is accepted whatever its other bytes are. At the first malformed
  field the call returns at once: for every count \<open>n\<close> for which the two arrays were
  obtained, the result is the error alone, it does not depend on the fields behind the
  offending one or on whether they exist, and \<^verbatim>\<open>sd_journal_sendv\<close> returns with the
  world unchanged.
\<close>

theorem encode_fails_iff_malformed:
  "(encode fs (length fs) = Inl (Return (- EINVAL)) \<longleftrightarrow> (\<exists>f\<in>set fs. spec_malformed f)) \<and>
   ((\<exists>st. encode fs (length fs) = Inr st) \<longleftrightarrow>
      (\<forall>f\<in>set fs. EQ \<in> set f \<and> NL \<notin> set (spec_name f))) \<and>
   ((\<forall>f\<in>set pre. \<not> spec_malformed f) \<and> spec_malformed bad \<and> length pre < n \<and>
    arrays_obtained room n \<longrightarrow>
      encode (pre @ bad # post) n = Inl (Return (- EINVAL)) \<and>
      sd_journal_sendv os (Some (pre @ bad # post)) (int n) wd = Some (Return (- EINVAL), wd))"
proof (intro conjI impI)
  show "encode fs (length fs) = Inl (Return (- EINVAL)) \<longleftrightarrow> (\<exists>f\<in>set fs. spec_malformed f)"
    using encode_total [of fs] by (auto simp: spec_malformed_iff)
  show "(\<exists>st. encode fs (length fs) = Inr st) \<longleftrightarrow>
      (\<forall>f\<in>set fs. EQ \<in> set f \<and> NL \<notin> set (spec_name f))"
    using encode_total [of fs] by (auto simp: spec_well_formed_def)
next
  assume a: "(\<forall>f\<in>set pre. \<not> spec_malformed f) \<and> spec_malformed bad \<and> length pre < n \<and>
    arrays_obtained room n"
  then show e: "encode (pre @ bad # post) n = Inl (Return (- EINVAL))"
    by (intro encode_aborts) (simp_all add: spec_malformed_iff)
  from a have "\<not> int n \<le> 0" by simp
  with e show "sd_journal_sendv os (Some (pre @ bad # post)) (int n) wd
      = Some (Return (- EINVAL), wd)"
    by (simp add: sd_journal_sendv_def)
qed

text \<open>
  The theorem at the spec's examples \<^verbatim>\<open>"no"\<close> (no separator) and \<^verbatim>\<open>"a\nb=c"\<close>, at
  a field with an empty name and the value bytes 0 and 255, and at a list whose second
  field of three is malformed, for a count of 7 that runs past the list, with a stack
  of 8 MiB.
\<close>

theorem encode_fails_iff_malformed_witness:
  "spec_malformed [110, 111] \<and> encode [[110, 111]] 1 = Inl (Return (- EINVAL)) \<and>
   spec_malformed [97, 10, 98, 61, 99] \<and> encode [[97, 10, 98, 61, 99]] 1 = Inl (Return (- EINVAL)) \<and>
   EQ \<in> set [61, 0, 255 :: byte] \<and> NL \<notin> set (spec_name [61, 0, 255]) \<and>
   (\<exists>st. encode [[61, 0, 255]] 1 = Inr st) \<and>
   \<not> spec_malformed [97, 61, 98] \<and> arrays_obtained 8388608 7 \<and>
   encode ([[97, 61, 98]] @ [110, 111] # [[99, 61, 100]]) 7 = Inl (Return (- EINVAL)) \<and>
   sd_journal_sendv os_accepting (Some ([[97, 61, 98]] @ [110, 111] # [[99, 61, 100]])) 7
       initial_world
     = Some (Return (- EINVAL), initial_world)"
proof -
  have m1: "spec_malformed [110, 111]" by (simp add: spec_malformed_def EQ_def)
  have m2: "spec_malformed [97, 10, 98, 61, 99]"
    by (auto simp: spec_malformed_def EQ_def NL_def intro!: exI [of _ 1])
  have m3: "\<not> spec_malformed [97, 61, 98]"
    by (simp add: spec_malformed_iff spec_well_formed_def spec_name_def EQ_def NL_def)
  have ao: "arrays_obtained 8388608 7"
    by (simp add: arrays_obtained_iff INT_MAX_def)
  have w: "EQ \<in> set [61, 0, 255 :: byte]" "NL \<notin> set (spec_name [61, 0, 255])"
    by code_simp+
  have "encode [[110, 111]] (length [[110, 111 :: byte]]) = Inl (Return (- EINVAL))"
    using encode_fails_iff_malformed [of "[[110, 111]]"] m1 by simp
  then have r1: "encode [[110, 111]] 1 = Inl (Return (- EINVAL))" by simp
  have "encode [[97, 10, 98, 61, 99]] (length [[97, 10, 98, 61, 99 :: byte]]) = Inl (Return (- EINVAL))"
    using encode_fails_iff_malformed [of "[[97, 10, 98, 61, 99]]"] m2 by simp
  then have r2: "encode [[97, 10, 98, 61, 99]] 1 = Inl (Return (- EINVAL))" by simp
  have "\<exists>st. encode [[61, 0, 255]] (length [[61, 0, 255 :: byte]]) = Inr st"
    using encode_fails_iff_malformed [of "[[61, 0, 255]]"] w by simp
  then have r3: "\<exists>st. encode [[61, 0, 255]] 1 = Inr st" by simp
  have r4: "encode ([[97, 61, 98]] @ [110, 111] # [[99, 61, 100]]) 7 = Inl (Return (- EINVAL)) \<and>
      sd_journal_sendv os_accepting (Some ([[97, 61, 98]] @ [110, 111] # [[99, 61, 100]])) (int 7)
          initial_world
        = Some (Return (- EINVAL), initial_world)"
    using encode_fails_iff_malformed
      [where pre = "[[97, 61, 98]]" and bad = "[110, 111]" and n = 7 and room = 8388608
         and post = "[[99, 61, 100]]" and os = os_accepting and wd = initial_world]
      m1 m3 ao by simp
  show ?thesis using m1 m2 m3 ao w r1 r2 r3 r4 by simp
qed

subsection \<open>Claim C9: the number of segments and length words\<close>

lemma length_segs_range:
  "length (segs_range fs 0 (length fs)) = sum_list (map (\<lambda>f. if NL \<in> set f then 5 else 2) fs)"
proof -
  have "map (\<lambda>k. length (field_segs k (fs ! k))) [0..<length fs]
      = map (\<lambda>f. if NL \<in> set f then 5 else 2) fs"
    by (intro nth_equalityI) (simp_all add: length_field_segs)
  then show ?thesis
    by (simp add: segs_range_def length_concat comp_def)
qed

lemma sum_list_segments:
  "sum_list (map (\<lambda>f. if P f then 5 else 2) fs)
     = 2 * length (filter (\<lambda>f. \<not> P f) fs) + 5 * length (filter P fs)"
  by (induction fs) simp_all

lemma sum_list_segments_le: "sum_list (map (\<lambda>f. if P f then 5 else 2) fs) \<le> 5 * length fs"
  by (induction fs) simp_all

lemma filter_newline_cong:
  "\<forall>f\<in>set fs. spec_well_formed f \<Longrightarrow>
   filter (\<lambda>f. NL \<in> set f) fs = filter (\<lambda>f. NL \<in> set (spec_value f)) fs \<and>
   filter (\<lambda>f. NL \<notin> set f) fs = filter (\<lambda>f. NL \<notin> set (spec_value f)) fs"
  by (auto intro!: filter_cong simp: wf_newline)


text \<open>
  Claim C9, as amended. Take a list of \<open>n\<close> well-formed fields for which the two
  arrays were obtained and \<open>5 * n\<close> is at most \<^verbatim>\<open>INT_MAX\<close>. Then the loop ends
  without an access outside its arrays: \<open>w\<close> has \<open>5 * n\<close> cells and \<open>l\<close> has \<open>n\<close>;
  the loop writes exactly two segments for a field with the simple encoding and five
  for a field with the binary-safe encoding, at most \<open>5 * n\<close> in all, and the counter
  \<open>j\<close> ends in the range of \<^verbatim>\<open>int\<close>; and it writes one length word for each field
  with the binary-safe encoding, in the cell of that field's index, and none for the
  others, so at most \<open>n\<close>.
\<close>

theorem segment_count_bound:
  assumes "\<forall>f\<in>set fs. spec_well_formed f" and "arrays_obtained room (length fs)"
  shows "\<exists>st. encode fs (length fs) = Inr st \<and>
    16 * length fs * 5 + 8 * length fs \<le> room \<and>
    length (w st) = 5 * length fs \<and> length (l st) = length fs \<and>
    j st = 2 * length (filter (\<lambda>f. NL \<notin> set (spec_value f)) fs)
           + 5 * length (filter (\<lambda>f. NL \<in> set (spec_value f)) fs) \<and>
    j st \<le> 5 * length fs \<and> j st \<le> INT_MAX \<and>
    (\<forall>i<length fs. \<exists>ss. emitted fs (length fs) i = Some ss \<and>
        length ss = (if NL \<in> set (spec_value (fs ! i)) then 5 else 2)) \<and>
    (\<forall>i<length fs. (l st ! i \<noteq> None) = (NL \<in> set (spec_value (fs ! i)))) \<and>
    length (filter (\<lambda>c. c \<noteq> None) (l st))
      = length (filter (\<lambda>f. NL \<in> set (spec_value f)) fs) \<and>
    length (filter (\<lambda>c. c \<noteq> None) (l st)) \<le> length fs"
proof -
  from encode_well_formed [OF assms(1)] obtain st where
    st: "encode fs (length fs) = Inr st"
    "j st = length (segs_range fs 0 (length fs))"
    "length (w st) = 5 * length fs" "l st = map field_len fs" by auto
  note fc = filter_newline_cong [OF assms(1)]
  from assms(2) have fit: "16 * length fs * 5 + 8 * length fs \<le> room"
    and im: "5 * length fs \<le> INT_MAX"
    by (simp_all add: arrays_obtained_iff)
  have j1: "j st = 2 * length (filter (\<lambda>f. NL \<notin> set (spec_value f)) fs)
           + 5 * length (filter (\<lambda>f. NL \<in> set (spec_value f)) fs)"
    using st(2) fc by (simp add: length_segs_range sum_list_segments)
  have j2: "j st \<le> 5 * length fs"
    using st(2) by (simp add: length_segs_range sum_list_segments_le)
  from j2 im have j3: "j st \<le> INT_MAX" by simp
  have e: "\<forall>i<length fs. \<exists>ss. emitted fs (length fs) i = Some ss \<and>
        length ss = (if NL \<in> set (spec_value (fs ! i)) then 5 else 2)"
  proof (intro allI impI)
    fix i assume i: "i < length fs"
    then have "spec_well_formed (fs ! i)" using assms(1) by simp
    then show "\<exists>ss. emitted fs (length fs) i = Some ss \<and>
        length ss = (if NL \<in> set (spec_value (fs ! i)) then 5 else 2)"
      using emitted_well_formed [OF assms(1) i] by (simp add: length_field_segs wf_newline)
  qed
  have l1: "\<forall>i<length fs. (l st ! i \<noteq> None) = (NL \<in> set (spec_value (fs ! i)))"
    using assms(1) st(4) by (simp add: field_len_def wf_newline)
  have "filter (\<lambda>c. c \<noteq> None) (map field_len fs) = map field_len (filter (\<lambda>f. NL \<in> set f) fs)"
    by (simp add: filter_map comp_def field_len_def)
  then have l2: "length (filter (\<lambda>c. c \<noteq> None) (l st))
      = length (filter (\<lambda>f. NL \<in> set (spec_value f)) fs)"
    using st(4) fc by simp
  then have l3: "length (filter (\<lambda>c. c \<noteq> None) (l st)) \<le> length fs"
    by simp
  show ?thesis
    using st(1,3,4) fit j1 j2 j3 e l1 l2 l3 by simp
qed

text \<open>
  The claim as first stated has the loop write exactly \<open>n\<close> length words. For the one
  field \<^verbatim>\<open>"A=b"\<close> it writes two segments and leaves the only cell of \<open>l\<close> unwritten.
\<close>

theorem segment_count_bound_counterexample:
  "spec_well_formed [65, 61, 98] \<and>
   encode [[65, 61, 98]] 1 =
     Inr \<lparr>w = [Some \<lparr>iov_base = Iov_ptr 0 0, iov_len = 3\<rparr>, Some IOVEC_SET_STRING_newline,
               None, None, None],
          l = [None], j = 2\<rparr>"
  by code_simp


text \<open>
  The theorem at the list of \<^verbatim>\<open>"A=b"\<close> and \<^verbatim>\<open>"a=b\nc"\<close>, with a stack of
  8 MiB.
\<close>

theorem segment_count_bound_witness:
  "spec_well_formed [65, 61, 98] \<and> spec_well_formed [97, 61, 98, 10, 99] \<and>
   arrays_obtained 8388608 2 \<and>
   (\<exists>st. encode [[65, 61, 98], [97, 61, 98, 10, 99]] 2 = Inr st \<and>
      length (w st) = 10 \<and> length (l st) = 2 \<and> j st = 7 \<and> j st \<le> INT_MAX \<and>
      length (filter (\<lambda>c. c \<noteq> None) (l st)) = 1)"
proof -
  have wf: "spec_well_formed [65, 61, 98]" "spec_well_formed [97, 61, 98, 10, 99]"
    by code_simp+
  then have h: "\<forall>f\<in>set [[65, 61, 98], [97, 61, 98, 10, 99]]. spec_well_formed f" by simp
  have ao: "arrays_obtained 8388608 2"
    by (simp add: arrays_obtained_iff INT_MAX_def)
  have h2: "arrays_obtained 8388608 (length [[65, 61, 98], [97, 61, 98, 10, 99 :: byte]])"
    by (simp add: arrays_obtained_iff INT_MAX_def)
  have e: "length (filter (\<lambda>f. NL \<notin> set (spec_value f)) [[65, 61, 98], [97, 61, 98, 10, 99]]) = 1"
    "length (filter (\<lambda>f. NL \<in> set (spec_value f)) [[65, 61, 98], [97, 61, 98, 10, 99]]) = 1"
    "length [[65, 61, 98], [97, 61, 98, 10, 99 :: byte]] = 2"
    by code_simp+
  from segment_count_bound [OF h h2, unfolded e] obtain st where
    "encode [[65, 61, 98], [97, 61, 98, 10, 99]] 2 = Inr st"
    "length (w st) = 5 * 2" "length (l st) = 2" "j st = 2 * 1 + 5 * 1" "j st \<le> INT_MAX"
    "length (filter (\<lambda>c. c \<noteq> None) (l st)) = 1"
    by blast
  then have "\<exists>st. encode [[65, 61, 98], [97, 61, 98, 10, 99]] 2 = Inr st \<and>
      length (w st) = 10 \<and> length (l st) = 2 \<and> j st = 7 \<and> j st \<le> INT_MAX \<and>
      length (filter (\<lambda>c. c \<noteq> None) (l st)) = 1"
    by simp
  with wf ao show ?thesis by simp
qed

subsection \<open>Claim C3: reading back what was encoded\<close>

lemma spec_name_bytes:
  "spec_well_formed f \<Longrightarrow> b \<in> set (spec_name f) \<Longrightarrow> b \<noteq> EQ \<and> b \<noteq> NL"
  by (auto simp: spec_well_formed_def spec_name_def dest: set_takeWhileD)

lemma dropWhile_until: "c \<notin> set xs \<Longrightarrow> dropWhile (\<lambda>b. b \<noteq> c) (xs @ c # ys) = c # ys"
  by (induction xs) auto

lemma takeWhile_until: "c \<notin> set xs \<Longrightarrow> takeWhile (\<lambda>b. b \<noteq> c) (xs @ c # ys) = xs"
  by (induction xs) auto

lemma spec_parse_simple:
  assumes "\<forall>b\<in>set name. b \<noteq> EQ \<and> b \<noteq> NL" and "NL \<notin> set v"
  shows "spec_parse (spec_simple name v @ rest) = map_option ((#) (name, v)) (spec_parse rest)"
proof -
  let ?bs = "name @ EQ # v @ NL # rest"
  have 1: "dropWhile (\<lambda>b. b \<noteq> EQ \<and> b \<noteq> NL) ?bs = EQ # v @ NL # rest"
    using assms(1) by (simp add: dropWhile_append2)
  have 2: "takeWhile (\<lambda>b. b \<noteq> EQ \<and> b \<noteq> NL) ?bs = name"
    using assms(1) by (simp add: takeWhile_append2)
  have 3: "dropWhile (\<lambda>b. b \<noteq> NL) (v @ NL # rest) = NL # rest"
    using assms(2) by (rule dropWhile_until)
  have 4: "takeWhile (\<lambda>b. b \<noteq> NL) (v @ NL # rest) = v"
    using assms(2) by (rule takeWhile_until)
  have "spec_parse ?bs = map_option ((#) (name, v)) (spec_parse rest)"
    by (subst spec_parse.simps) (simp add: 1 2 3 4)
  then show ?thesis by (simp add: spec_simple_def)
qed

lemma spec_parse_binary_safe:
  assumes "\<forall>b\<in>set name. b \<noteq> EQ \<and> b \<noteq> NL" and "length v < 2 ^ 64"
  shows "spec_parse (spec_binary_safe name v @ rest)
     = map_option ((#) (name, v)) (spec_parse rest)"
proof -
  let ?len = "spec_le_bytes 8 (length v)"
  let ?r = "?len @ v @ NL # rest"
  let ?bs = "name @ NL # ?r"
  have ne: "NL \<noteq> EQ" by (simp add: NL_def EQ_def)
  have 1: "dropWhile (\<lambda>b. b \<noteq> EQ \<and> b \<noteq> NL) ?bs = NL # ?r"
    using assms(1) by (simp add: dropWhile_append2)
  have 2: "takeWhile (\<lambda>b. b \<noteq> EQ \<and> b \<noteq> NL) ?bs = name"
    using assms(1) by (simp add: takeWhile_append2)
  have 3: "take 8 ?r = ?len"
    by (simp add: length_spec_le_bytes)
  have 4: "spec_le_value ?len = length v"
    using assms(2) by (simp add: spec_le_value_bytes)
  have 5: "\<not> length ?r < 8 + length v + 1"
    by (simp add: length_spec_le_bytes)
  have 6: "?r ! (8 + length v) = NL"
    by (simp add: nth_append length_spec_le_bytes)
  have 7: "take (length v) (drop 8 ?r) = v"
    by (simp add: length_spec_le_bytes)
  have 8: "drop (8 + length v + 1) ?r = rest"
    by (simp add: length_spec_le_bytes)
  have "spec_parse ?bs = map_option ((#) (name, v)) (spec_parse rest)"
    by (subst spec_parse.simps) (simp only: 1 2 3 4 5 6 7 8 list.case if_False ne append_is_Nil_conv list.simps simp_thms)
  then show ?thesis by (simp add: spec_binary_safe_def)
qed

lemma spec_parse_field:
  assumes "spec_well_formed f" and "length f < 2 ^ 64"
  shows "spec_parse (spec_field f @ rest)
     = map_option ((#) (spec_name f, spec_value f)) (spec_parse rest)"
proof -
  have n: "\<forall>b\<in>set (spec_name f). b \<noteq> EQ \<and> b \<noteq> NL"
    using spec_name_bytes [OF assms(1)] by blast
  have "length (spec_value f) < 2 ^ 64"
    using assms(2) by (simp add: spec_value_def)
  with n show ?thesis
    by (simp add: spec_field_def spec_parse_simple spec_parse_binary_safe)
qed

lemma spec_parse_record:
  "\<forall>f\<in>set fs. spec_well_formed f \<and> length f < 2 ^ 64 \<Longrightarrow>
   spec_parse (spec_record fs) = Some (map (\<lambda>f. (spec_name f, spec_value f)) fs)"
proof (induction fs)
  case Nil
  then show ?case by (subst spec_parse.simps) (simp add: spec_record_def)
next
  case (Cons f fs)
  then have "spec_parse (spec_field f @ spec_record fs)
      = Some ((spec_name f, spec_value f) # map (\<lambda>f. (spec_name f, spec_value f)) fs)"
    by (simp add: spec_parse_field)
  then show ?case by (simp add: spec_record_def)
qed


lemma spec_grammar_parse: "spec_grammar bs r \<Longrightarrow> spec_parse bs = Some r"
proof (induction rule: spec_grammar.induct)
  case record_end
  show ?case by (subst spec_parse.simps) simp
next
  case (simple name v rest fs)
  then have "\<forall>b\<in>set name. b \<noteq> EQ \<and> b \<noteq> NL" by auto
  from spec_parse_simple [OF this simple.hyps(3)] simple.IH show ?case by simp
next
  case (binary_safe name v rest fs)
  then have "\<forall>b\<in>set name. b \<noteq> EQ \<and> b \<noteq> NL" by auto
  from spec_parse_binary_safe [OF this binary_safe.hyps(3)] binary_safe.IH show ?case by simp
qed

lemma spec_grammar_record:
  "\<forall>f\<in>set fs. spec_well_formed f \<and> length f < 2 ^ 64 \<Longrightarrow>
   spec_grammar (spec_record fs) (map (\<lambda>f. (spec_name f, spec_value f)) fs)"
proof (induction fs)
  case Nil
  show ?case by (simp add: spec_record_def spec_grammar.record_end)
next
  case (Cons f fs)
  then have wf: "spec_well_formed f" and len: "length f < 2 ^ 64"
    and rest: "spec_grammar (spec_record fs) (map (\<lambda>f. (spec_name f, spec_value f)) fs)"
    by simp_all
  from wf have n: "EQ \<notin> set (spec_name f)" "NL \<notin> set (spec_name f)"
    using spec_name_bytes [OF wf] by blast+
  from len have lv: "length (spec_value f) < 2 ^ 64" by (simp add: spec_value_def)
  have "spec_grammar (spec_field f @ spec_record fs)
      ((spec_name f, spec_value f) # map (\<lambda>f. (spec_name f, spec_value f)) fs)"
  proof (cases "NL \<in> set (spec_value f)")
    case True
    then show ?thesis
      using n lv rest by (simp add: spec_field_def spec_grammar.binary_safe)
  next
    case False
    then show ?thesis
      using n rest by (simp add: spec_field_def spec_grammar.simple)
  qed
  then show ?case by (simp add: spec_record_def)
qed

text \<open>
  Claim C3. For every list of well-formed fields (each has an \<^verbatim>\<open>=\<close> and no newline
  before the first one; their lengths fit \<^verbatim>\<open>size_t\<close>), the loop ends with its
  segments, and the bytes that the segments point at are the record in the documented
  format. These bytes are a record of the grammar for the names and values of the
  fields, in the caller's order, and for no other list of names and values; the reader
  of the grammar returns exactly that list. Nothing is asked of the value bytes. The
  list may also be empty.
\<close>

theorem round_trip:
  assumes "\<forall>f\<in>set fs. spec_well_formed f \<and> length f < 2 ^ 64"
  shows "\<exists>st bs. encode fs (length fs) = Inr st \<and> payload fs st = Some bs \<and>
           bs = spec_record fs \<and>
           spec_grammar bs (map (\<lambda>f. (spec_name f, spec_value f)) fs) \<and>
           (\<forall>r. spec_grammar bs r \<longrightarrow> r = map (\<lambda>f. (spec_name f, spec_value f)) fs) \<and>
           spec_parse bs = Some (map (\<lambda>f. (spec_name f, spec_value f)) fs)"
proof -
  from assms have wf: "\<forall>f\<in>set fs. spec_well_formed f" by simp
  from encode_well_formed [OF wf] obtain st where st: "encode fs (length fs) = Inr st"
    by blast
  with wf have pl: "payload fs st = Some (spec_record fs)"
    by (rule payload_well_formed)
  note p = spec_parse_record [OF assms]
  have g: "spec_grammar (spec_record fs) (map (\<lambda>f. (spec_name f, spec_value f)) fs)"
    using assms by (rule spec_grammar_record)
  have u: "r = map (\<lambda>f. (spec_name f, spec_value f)) fs" if "spec_grammar (spec_record fs) r" for r
    using spec_grammar_parse [OF that] p by simp
  from st pl p g u show ?thesis by blast
qed

text \<open>
  The theorem at the fields \<^verbatim>\<open>"a=b"\<close> and \<^verbatim>\<open>"d="\<close> followed by the bytes 0, 10
  (a newline) and 255, which is not UTF-8.
\<close>

theorem round_trip_witness:
  "spec_well_formed [97, 61, 98] \<and> spec_well_formed [100, 61, 0, 10, 255] \<and>
   (\<exists>st bs. encode [[97, 61, 98], [100, 61, 0, 10, 255]] 2 = Inr st \<and>
      payload [[97, 61, 98], [100, 61, 0, 10, 255]] st = Some bs \<and>
      bs = [97, 61, 98, 10, 100, 10, 3, 0, 0, 0, 0, 0, 0, 0, 0, 10, 255, 10] \<and>
      spec_grammar bs [([97], [98]), ([100], [0, 10, 255])] \<and>
      spec_parse bs = Some [([97], [98]), ([100], [0, 10, 255])])"
proof -
  have wf: "spec_well_formed [97, 61, 98]" "spec_well_formed [100, 61, 0, 10, 255]"
    by code_simp+
  then have h: "\<forall>f\<in>set [[97, 61, 98], [100, 61, 0, 10, 255]].
      spec_well_formed f \<and> length f < 2 ^ 64"
    by simp
  have e: "length [[97, 61, 98], [100, 61, 0, 10, 255 :: byte]] = 2"
    "spec_record [[97, 61, 98], [100, 61, 0, 10, 255]]
       = [97, 61, 98, 10, 100, 10, 3, 0, 0, 0, 0, 0, 0, 0, 0, 10, 255, 10]"
    "map (\<lambda>f. (spec_name f, spec_value f)) [[97, 61, 98], [100, 61, 0, 10, 255]]
       = [([97], [98]), ([100], [0, 10, 255])]"
    by code_simp+
  from round_trip [OF h, unfolded e]
  have "\<exists>st bs. encode [[97, 61, 98], [100, 61, 0, 10, 255]] 2 = Inr st \<and>
      payload [[97, 61, 98], [100, 61, 0, 10, 255]] st = Some bs \<and>
      bs = [97, 61, 98, 10, 100, 10, 3, 0, 0, 0, 0, 0, 0, 0, 0, 10, 255, 10] \<and>
      spec_grammar bs [([97], [98]), ([100], [0, 10, 255])] \<and>
      spec_parse bs = Some [([97], [98]), ([100], [0, 10, 255])]"
    by blast
  with wf show ?thesis by blast
qed

subsection \<open>\<^verbatim>\<open>journal_fd\<close>: the statements and the whole call\<close>

lemma journal_fd_run_Returned: "journal_fd_run os (Returned r) wd = Some (r, wd)"
  by (subst journal_fd_run.simps) simp

lemma journal_fd_run_retry:
  "journal_fd_run os At_retry wd =
     (if fd_plus_one wd > 0 then Some (fd_plus_one wd - 1, wd) else journal_fd_run os At_socket wd)"
  by (subst journal_fd_run.simps) (simp add: journal_fd_run_Returned)

lemma journal_fd_run_socket:
  "journal_fd_run os At_socket wd =
     (case socket os wd of (fd, errno, wd') \<Rightarrow>
        if fd < 0 then Some (- errno, wd') else journal_fd_run os (At_cas fd) wd')"
  by (subst journal_fd_run.simps) (simp add: journal_fd_run_Returned split: prod.splits)

lemma journal_fd_run_cas:
  "journal_fd_run os (At_cas fd) wd =
     (if fd_plus_one wd = 0 then Some (fd, wd\<lparr>fd_plus_one := fd + 1\<rparr>)
      else journal_fd_run os (At_close fd) wd)"
  by (subst journal_fd_run.simps) (simp add: journal_fd_run_Returned)

lemma journal_fd_run_close:
  "journal_fd_run os (At_close fd) wd = journal_fd_run os At_retry (close_nointr_nofail fd wd)"
  by (subst journal_fd_run.simps) simp

text \<open>The statements of a call, put together again, are the text of the C function.\<close>

lemma journal_fd_unfold:
  "journal_fd os wd =
     (if fd_plus_one wd > 0 then Some (fd_plus_one wd - 1, wd)
      else
        case socket os wd of (fd, errno, wd1) \<Rightarrow>
          if fd < 0 then Some (- errno, wd1)
          else if fd_plus_one wd1 = 0 then Some (fd, wd1\<lparr>fd_plus_one := fd + 1\<rparr>)
          else journal_fd os (close_nointr_nofail fd wd1))"
  by (simp add: journal_fd_def journal_fd_run_retry journal_fd_run_socket journal_fd_run_cas
      journal_fd_run_close split: prod.splits)

lemma socket_fd_plus_one: "socket os wd = (fd, errno, wd') \<Longrightarrow> fd_plus_one wd' = fd_plus_one wd"
  by (auto simp: socket_def split: prod.splits)

lemma socket_datagrams: "socket os wd = (fd, errno, wd') \<Longrightarrow> datagrams wd' = datagrams wd"
  by (auto simp: socket_def split: prod.splits)

lemma journal_fd_published:
  "0 < fd_plus_one wd \<Longrightarrow> journal_fd os wd = Some (fd_plus_one wd - 1, wd)"
  by (subst journal_fd_unfold) simp

lemma journal_fd_unpublished:
  "fd_plus_one wd = 0 \<Longrightarrow>
   journal_fd os wd =
     (case socket os wd of (fd, errno, wd1) \<Rightarrow>
        if fd < 0 then Some (- errno, wd1) else Some (fd, wd1\<lparr>fd_plus_one := fd + 1\<rparr>))"
  by (subst journal_fd_unfold) (auto split: prod.splits dest: socket_fd_plus_one)

lemma journal_fd_returns:
  assumes "0 \<le> fd_plus_one wd"
  shows "\<exists>r wd'. journal_fd os wd = Some (r, wd') \<and> datagrams wd' = datagrams wd \<and>
           sendmsg_calls wd' = sendmsg_calls wd \<and> 0 \<le> fd_plus_one wd'"
proof (cases "0 < fd_plus_one wd")
  case True
  then show ?thesis by (simp add: journal_fd_published)
next
  case False
  with assms have z: "fd_plus_one wd = 0" by simp
  obtain fd errno wd1 where s: "socket os wd = (fd, errno, wd1)"
    by (cases "socket os wd") auto
  then have "datagrams wd1 = datagrams wd" "sendmsg_calls wd1 = sendmsg_calls wd"
    "fd_plus_one wd1 = 0"
    using z by (auto simp: socket_def split: prod.splits)
  with s z show ?thesis
    by (cases "fd < 0") (simp_all add: journal_fd_unpublished)
qed

lemma journal_fd_step_stable:
  assumes "0 < fd_plus_one wd" and "journal_fd_step os p wd = (p', wd')"
  shows "fd_plus_one wd' = fd_plus_one wd"
  using assms
  by (cases p) (auto simp: socket_def close_nointr_nofail_def split: prod.splits if_splits)

lemma sys_step_stable:
  assumes "sys_step s s'" and "0 < fd_plus_one (snd s)"
  shows "fd_plus_one (snd s') = fd_plus_one (snd s)"
  using assms by (induction rule: sys_step.induct) (auto dest: journal_fd_step_stable)

lemma sys_steps_stable:
  assumes "rtranclp sys_step s s'" and "0 < fd_plus_one (snd s)"
  shows "fd_plus_one (snd s') = fd_plus_one (snd s)"
  using assms by (induction rule: rtranclp_induct) (auto dest: sys_step_stable)


subsection \<open>Claim C6: the descriptor is published once\<close>

text \<open>
  Claim C6. Let a call of \<^verbatim>\<open>journal_fd\<close> have succeeded by its compare-and-swap
  (line 47), returning the descriptor \<open>r\<close>; this stores \<open>r + 1\<close> in
  \<^verbatim>\<open>fd_plus_one\<close>. Then, whatever the threads of the process do afterwards in calls of
  \<^verbatim>\<open>journal_fd\<close>, in any order and with any answers of the operating system,
  \<^verbatim>\<open>fd_plus_one\<close> keeps that value, and a call that starts in any later state returns
  \<open>r\<close> by its first statement and leaves the world as it is: no \<^verbatim>\<open>socket\<close> call
  is made and no descriptor created.
\<close>

theorem journal_fd_singleton:
  assumes "journal_fd_step os0 (At_cas fd) wd0 = (Returned r, wd1)" and "0 \<le> r"
    and "rtranclp sys_step (ths1, wd1) (ths2, wd2)"
  shows "r = fd \<and> fd_plus_one wd1 = r + 1 \<and> fd_plus_one wd2 = r + 1 \<and>
         journal_fd_step os At_retry wd2 = (Returned r, wd2) \<and>
         journal_fd os wd2 = Some (r, wd2)"
proof -
  from assms(1) have a: "r = fd" "fd_plus_one wd1 = r + 1"
    by (auto split: if_splits)
  with assms(2) have "0 < fd_plus_one (snd (ths1, wd1))" by simp
  from sys_steps_stable [OF assms(3) this] a have b: "fd_plus_one wd2 = r + 1" by simp
  with assms(2) show ?thesis
    using a by (simp add: journal_fd_published)
qed


text \<open>
  The theorem for two threads that both created a socket, 3 and 4. Thread 0 publishes 3;
  thread 1 then fails its compare-and-swap and closes 4. A later call returns 3, also
  under an operating system that would refuse every new socket.
\<close>

theorem journal_fd_singleton_witness:
  "journal_fd_step os_accepting (At_cas 3)
      (initial_world\<lparr>socket_calls := 2, created_fds := [3, 4]\<rparr>)
     = (Returned 3, initial_world\<lparr>socket_calls := 2, created_fds := [3, 4], fd_plus_one := 4\<rparr>) \<and>
   rtranclp sys_step
     ((\<lambda>t. Returned 3)(1 := At_cas 4),
      initial_world\<lparr>socket_calls := 2, created_fds := [3, 4], fd_plus_one := 4\<rparr>)
     ((\<lambda>t. Returned 3)(1 := At_retry),
      initial_world\<lparr>socket_calls := 2, created_fds := [3, 4], fd_plus_one := 4,
                     closed_fds := [4]\<rparr>) \<and>
   journal_fd os_refusing
      (initial_world\<lparr>socket_calls := 2, created_fds := [3, 4], fd_plus_one := 4,
                      closed_fds := [4]\<rparr>)
     = Some (3, initial_world\<lparr>socket_calls := 2, created_fds := [3, 4], fd_plus_one := 4,
                               closed_fds := [4]\<rparr>)"
proof -
  let ?w0 = "initial_world\<lparr>socket_calls := 2, created_fds := [3, 4]\<rparr>"
  let ?w1 = "initial_world\<lparr>socket_calls := 2, created_fds := [3, 4], fd_plus_one := 4\<rparr>"
  let ?w2 = "initial_world\<lparr>socket_calls := 2, created_fds := [3, 4], fd_plus_one := 4,
                            closed_fds := [4]\<rparr>"
  let ?ths = "(\<lambda>t :: nat. Returned 3)(1 := At_cas 4)"
  have h1: "journal_fd_step os_accepting (At_cas 3) ?w0 = (Returned 3, ?w1)"
    by (simp add: initial_world_def)
  have "journal_fd_step os_accepting (?ths 1) ?w1 = (At_close 4, ?w1)"
    by (simp add: initial_world_def)
  then have "sys_step (?ths, ?w1) (?ths(1 := At_close 4), ?w1)"
    by (rule sys_step.statement)
  then have s1: "sys_step (?ths, ?w1) ((\<lambda>t. Returned 3)(1 := At_close 4), ?w1)"
    by simp
  have "journal_fd_step os_accepting (((\<lambda>t. Returned 3)(1 := At_close 4)) (1 :: nat)) ?w1
      = (At_retry, ?w2)"
    by (simp add: initial_world_def close_nointr_nofail_def)
  then have "sys_step ((\<lambda>t. Returned 3)(1 := At_close 4), ?w1)
      (((\<lambda>t. Returned 3)(1 := At_close 4))(1 := At_retry), ?w2)"
    by (rule sys_step.statement)
  then have s2: "sys_step ((\<lambda>t. Returned 3)(1 := At_close 4), ?w1)
      ((\<lambda>t. Returned 3)(1 := At_retry), ?w2)"
    by simp
  from s1 s2 have h3: "rtranclp sys_step (?ths, ?w1) ((\<lambda>t. Returned 3)(1 := At_retry), ?w2)"
    by (rule converse_rtranclp_into_rtranclp [OF _ r_into_rtranclp])
  have h2: "(0 :: int) \<le> 3" by simp
  from journal_fd_singleton [OF h1 h2 h3, of os_refusing]
  have "journal_fd os_refusing ?w2 = Some (3, ?w2)" by blast
  with h1 h3 show ?thesis by blast
qed


subsection \<open>Claim C7: a failed creation is not remembered\<close>

text \<open>
  Claim C7. When no descriptor is published and \<^verbatim>\<open>socket\<close> fails with the error code
  \<open>errno\<close>, \<^verbatim>\<open>journal_fd\<close> returns \<open>- errno\<close>, and the only change is that one more
  \<^verbatim>\<open>socket\<close> call has been made: \<^verbatim>\<open>fd_plus_one\<close> is still 0. The next call
  therefore goes to the \<^verbatim>\<open>socket\<close> call again, under any operating system, and
  makes exactly one more such call before it returns.
\<close>

theorem socket_failure_not_cached:
  assumes "fd_plus_one wd = 0" and "os_socket os wd = (ret, errno)" and "ret < 0"
  shows "journal_fd os wd = Some (- errno, wd\<lparr>socket_calls := socket_calls wd + 1\<rparr>) \<and>
         journal_fd_step os At_socket wd
           = (Returned (- errno), wd\<lparr>socket_calls := socket_calls wd + 1\<rparr>) \<and>
         fd_plus_one (wd\<lparr>socket_calls := socket_calls wd + 1\<rparr>) = 0 \<and>
         journal_fd_step os' At_retry (wd\<lparr>socket_calls := socket_calls wd + 1\<rparr>)
           = (At_socket, wd\<lparr>socket_calls := socket_calls wd + 1\<rparr>) \<and>
         (\<exists>r wd'. journal_fd os' (wd\<lparr>socket_calls := socket_calls wd + 1\<rparr>) = Some (r, wd') \<and>
            socket_calls wd' = socket_calls wd + 2)"
proof -
  let ?wd1 = "wd\<lparr>socket_calls := socket_calls wd + 1\<rparr>"
  from assms(2,3) have s: "socket os wd = (ret, errno, ?wd1)"
    by (simp add: socket_def)
  with assms have 1: "journal_fd os wd = Some (- errno, ?wd1)"
    by (simp add: journal_fd_unpublished)
  from s assms(3) have 2: "journal_fd_step os At_socket wd = (Returned (- errno), ?wd1)"
    by simp
  from assms(1) have 3: "fd_plus_one ?wd1 = 0" by simp
  then have 4: "journal_fd_step os' At_retry ?wd1 = (At_socket, ?wd1)" by simp
  obtain fd' errno' wd2 where s': "socket os' ?wd1 = (fd', errno', wd2)"
    by (cases "socket os' ?wd1") auto
  then have "socket_calls wd2 = socket_calls wd + 2"
    by (auto simp: socket_def split: prod.splits)
  with s' 3 have 5: "\<exists>r wd'. journal_fd os' ?wd1 = Some (r, wd') \<and>
      socket_calls wd' = socket_calls wd + 2"
    by (cases "fd' < 0") (simp_all add: journal_fd_unpublished)
  from 1 2 3 4 5 show ?thesis by blast
qed


text \<open>
  The theorem at the start of the process: \<^verbatim>\<open>socket\<close> fails with \<^verbatim>\<open>EMFILE\<close>, and
  a second call, to which the operating system gives a descriptor, calls \<^verbatim>\<open>socket\<close>
  again.
\<close>

theorem socket_failure_not_cached_witness:
  "fd_plus_one initial_world = 0 \<and> os_socket os_refusing initial_world = (- 1, 24) \<and>
   journal_fd os_refusing initial_world = Some (- 24, initial_world\<lparr>socket_calls := 1\<rparr>) \<and>
   fd_plus_one (initial_world\<lparr>socket_calls := 1\<rparr>) = 0 \<and>
   (\<exists>r wd'. journal_fd os_accepting (initial_world\<lparr>socket_calls := 1\<rparr>) = Some (r, wd') \<and>
      socket_calls wd' = 2)"
proof -
  have h1: "fd_plus_one initial_world = 0" by (simp add: initial_world_def)
  have h2: "os_socket os_refusing initial_world = (- 1, 24)" by (simp add: os_refusing_def)
  have h3: "(- 1 :: int) < 0" by simp
  have e: "socket_calls initial_world + 1 = 1" "socket_calls initial_world + 2 = 2"
    by (simp_all add: initial_world_def)
  note r = socket_failure_not_cached [OF h1 h2 h3, of os_accepting, unfolded e]
  from r h1 h2 show ?thesis by blast
qed

subsection \<open>\<^verbatim>\<open>sd_journal_sendv\<close> for any count\<close>

lemma encode_prefix_well_formed:
  assumes "n \<le> length fs" and "\<forall>k<n. spec_well_formed (fs ! k)"
  shows "\<exists>st. encode fs n = Inr st \<and>
           take (j st) (w st) = map Some (segs_range fs 0 n) \<and>
           length (l st) = n \<and> (\<forall>k<n. l st ! k = field_len (fs ! k))"
proof -
  let ?st0 = "\<lparr>w = replicate (5 * n) None, l = replicate n None, j = 0\<rparr>"
  have "\<exists>st'. encode_loop fs n 0 ?st0 = Inr st' \<and>
           take (j st') (w st') = take (j ?st0) (w ?st0) @ map Some (segs_range fs 0 n) \<and>
           j st' = j ?st0 + length (segs_range fs 0 n) \<and>
           length (w st') = length (w ?st0) \<and> length (l st') = length (l ?st0) \<and>
           (\<forall>k<length (l ?st0).
              l st' ! k = (if 0 \<le> k \<and> k < n then field_len (fs ! k) else l ?st0 ! k))"
    using assms by (intro encode_loop_well_formed) simp_all
  then show ?thesis by (auto simp: encode_def)
qed

lemma payload_prefix:
  assumes "n \<le> length fs" and "\<forall>k<n. spec_well_formed (fs ! k)"
    and "encode fs n = Inr st"
  shows "payload fs st = Some (spec_record (take n fs))"
proof -
  from encode_prefix_well_formed [OF assms(1,2)] assms(3) have
    w: "take (j st) (w st) = map Some (segs_range fs 0 n)"
    and ll: "length (l st) = n" and la: "\<forall>k<n. l st ! k = field_len (fs ! k)"
    by auto
  have "\<forall>k\<in>set [0..<n].
          gather fs (l st) (map Some (field_segs k (fs ! k))) = Some (spec_field (fs ! k))"
    using assms(1,2) ll la by (auto intro!: gather_field)
  then have "gather fs (l st) (map Some (segs_range fs 0 n)) =
      Some (concat (map (\<lambda>k. spec_field (fs ! k)) [0..<n]))"
    unfolding segs_range_def by (rule gather_concat)
  moreover have "map (\<lambda>k. spec_field (fs ! k)) [0..<n] = map spec_field (take n fs)"
    using assms(1) by (intro nth_equalityI) simp_all
  ultimately show ?thesis by (simp add: payload_def w spec_record_def)
qed

lemma encode_cases:
  "n \<le> length fs \<and> (\<forall>k<n. spec_well_formed (fs ! k)) \<and> (\<exists>st. encode fs n = Inr st)
   \<or> encode fs n = Inl Fault \<or> encode fs n = Inl (Return (- EINVAL))"
proof (cases "n \<le> length fs \<and> (\<forall>k<n. spec_well_formed (fs ! k))")
  case True
  then show ?thesis using encode_prefix_well_formed [of n fs] by blast
next
  case False
  let ?st0 = "\<lparr>w = replicate (5 * n) None, l = replicate n None, j = 0\<rparr>"
  let ?P = "\<lambda>k. k < n \<and> (length fs \<le> k \<or> \<not> spec_well_formed (fs ! k))"
  define m where "m = (LEAST k. ?P k)"
  from False have "\<exists>k. ?P k"
    by (cases "n \<le> length fs") (auto intro: exI [of _ "length fs"])
  then have m: "?P m" unfolding m_def by (rule LeastI_ex)
  have before: "k < length fs \<and> spec_well_formed (fs ! k)" if "k < m" for k
  proof (rule ccontr)
    assume "\<not> (k < length fs \<and> spec_well_formed (fs ! k))"
    with that m have "?P k" by auto
    then have "m \<le> k" unfolding m_def by (rule Least_le)
    with that show False by simp
  qed
  have "\<exists>e. (\<forall>st. encode_iov fs m st = Inl e) \<and> (e = Fault \<or> e = Return (- EINVAL))"
  proof (cases "length fs \<le> m")
    case True
    then show ?thesis by (auto simp: encode_iov_def)
  next
    case False
    with m show ?thesis by (auto simp: encode_iov_malformed)
  qed
  then obtain e where e: "\<forall>st. encode_iov fs m st = Inl e"
    and e': "e = Fault \<or> e = Return (- EINVAL)" by blast
  have "encode_loop fs n 0 ?st0 = Inl e"
  proof (rule encode_loop_stops [where m = m])
    show "\<forall>k. 0 \<le> k \<and> k < m \<longrightarrow> k < length fs \<and> spec_well_formed (fs ! k)"
      using before by simp
    show "\<forall>st. encode_iov fs m st = Inl e" by fact
    show "m < n" using m by simp
    show "j ?st0 + 5 * (m - 0) \<le> length (w ?st0)" using m by simp
    show "m \<le> length (l ?st0)" using m by simp
  qed simp
  with e' show ?thesis by (auto simp: encode_def)
qed


subsection \<open>Claim C5: no fields, no work\<close>

text \<open>
  Claim C5. A call of \<^verbatim>\<open>sd_journal_sendv\<close> with a null field array or with a count of
  zero or less returns \<^verbatim>\<open>-EINVAL\<close> and leaves the world exactly as it was: no
  \<^verbatim>\<open>socket\<close> call, no \<^verbatim>\<open>sendmsg\<close> call, no datagram.
\<close>

theorem sendv_rejects_empty:
  assumes "iov = None \<or> n \<le> 0"
  shows "sd_journal_sendv os iov n wd = Some (Return (- EINVAL), wd)"
  using assms by (auto simp: sd_journal_sendv_def split: option.splits)


text \<open>The theorem at a null array, at a count of 0 and at a count of -1.\<close>

theorem sendv_rejects_empty_witness:
  "sd_journal_sendv os_accepting None 3 initial_world = Some (Return (- EINVAL), initial_world) \<and>
   sd_journal_sendv os_accepting (Some []) 0 initial_world
     = Some (Return (- EINVAL), initial_world) \<and>
   sd_journal_sendv os_accepting (Some [[97, 61, 98]]) (- 1) initial_world
     = Some (Return (- EINVAL), initial_world)"
proof -
  have h: "(None :: iovec list option) = None \<or> (3 :: int) \<le> 0"
    "Some ([] :: iovec list) = None \<or> (0 :: int) \<le> 0"
    "Some [[97, 61, 98 :: byte]] = None \<or> (- 1 :: int) \<le> 0"
    by simp_all
  show ?thesis
    using h [THEN sendv_rejects_empty, of os_accepting initial_world] by blast
qed

subsection \<open>Claim C8: one datagram or none\<close>

lemma sendmsg_cases:
  "sendmsg os fd path bs wd = (ret, errno, wd') \<Longrightarrow>
   os_sendmsg os wd fd path bs = (ret, errno) \<and> fd_plus_one wd' = fd_plus_one wd \<and>
   datagrams wd' =
     (if ret < 0 then datagrams wd
      else datagrams wd @ [\<lparr>dg_fd = fd, dg_path = path, dg_payload = bs\<rparr>])"
  by (auto simp: sendmsg_def split: prod.splits)

text \<open>
  Claim C8. Take any state in which \<^verbatim>\<open>fd_plus_one\<close> is not negative, as it is at the
  start of the process and, by this theorem, after every call; and an operating system
  that leaves a nonzero \<^verbatim>\<open>errno\<close> when \<^verbatim>\<open>sendmsg\<close> fails. Then every call of
  \<^verbatim>\<open>sd_journal_sendv\<close> returns. When it returns 0, exactly one datagram has been added,
  addressed to the journal socket, and its payload is the whole record of the \<open>n\<close>
  fields in the documented format. With any other outcome (null array or bad count, a
  malformed field, a failure to get the descriptor, a failure of \<^verbatim>\<open>sendmsg\<close>) the
  datagrams are what they were.
\<close>

theorem datagram_effect:
  assumes "0 \<le> fd_plus_one wd"
    and "\<And>wd fd path bs. fst (os_sendmsg os wd fd path bs) < 0 \<Longrightarrow>
           snd (os_sendmsg os wd fd path bs) \<noteq> 0"
  shows "\<exists>out wd'. sd_journal_sendv os iov n wd = Some (out, wd') \<and>
    0 \<le> fd_plus_one wd' \<and>
    (out = Return 0 \<longrightarrow>
       (\<exists>fs fd. iov = Some fs \<and> 0 < n \<and> nat n \<le> length fs \<and>
          datagrams wd' = datagrams wd @
            [\<lparr>dg_fd = fd, dg_path = journal_path,
              dg_payload = spec_record (take (nat n) fs)\<rparr>])) \<and>
    (out \<noteq> Return 0 \<longrightarrow> datagrams wd' = datagrams wd)"
proof (cases "iov = None \<or> n \<le> 0")
  case True
  then have "sd_journal_sendv os iov n wd = Some (Return (- EINVAL), wd)"
    by (auto simp: sd_journal_sendv_def split: option.splits)
  with assms(1) show ?thesis by (simp add: EINVAL_def)
next
  case False
  then obtain fs where fs: "iov = Some fs" and n: "0 < n" by auto
  from encode_cases [of "nat n" fs] consider
    (fault) "encode fs (nat n) = Inl Fault"
    | (einval) "encode fs (nat n) = Inl (Return (- EINVAL))"
    | (segments) st where "nat n \<le> length fs" "\<forall>k<nat n. spec_well_formed (fs ! k)"
        "encode fs (nat n) = Inr st"
    by blast
  then show ?thesis
  proof cases
    case fault
    with fs n assms(1) show ?thesis by (simp add: sd_journal_sendv_def)
  next
    case einval
    with fs n assms(1) show ?thesis by (simp add: sd_journal_sendv_def EINVAL_def)
  next
    case segments
    from journal_fd_returns [OF assms(1), of os] obtain fd wd1 where
      jf: "journal_fd os wd = Some (fd, wd1)" and d1: "datagrams wd1 = datagrams wd"
      and p1: "0 \<le> fd_plus_one wd1"
      by blast
    have pl: "payload fs st = Some (spec_record (take (nat n) fs))"
      using segments by (rule payload_prefix)
    show ?thesis
    proof (cases "fd < 0")
      case True
      with fs n segments(3) jf d1 p1 show ?thesis
        by (simp add: sd_journal_sendv_def)
    next
      case False
      obtain ret errno wd2 where
        sm: "sendmsg os fd journal_path (spec_record (take (nat n) fs)) wd1 = (ret, errno, wd2)"
        by (cases "sendmsg os fd journal_path (spec_record (take (nat n) fs)) wd1") auto
      note sc = sendmsg_cases [OF sm]
      from sc p1 have p2: "0 \<le> fd_plus_one wd2" by simp
      show ?thesis
      proof (cases "ret < 0")
        case True
        with sc assms(2) [of wd1 fd journal_path "spec_record (take (nat n) fs)"]
        have "errno \<noteq> 0" and "datagrams wd2 = datagrams wd" using d1 by simp_all
        with fs n segments(3) jf pl sm True p2 \<open>\<not> fd < 0\<close> show ?thesis
          by (simp add: sd_journal_sendv_def)
      next
        case False
        with sc d1 have "datagrams wd2 = datagrams wd @
            [\<lparr>dg_fd = fd, dg_path = journal_path,
              dg_payload = spec_record (take (nat n) fs)\<rparr>]"
          by simp
        with fs n segments(1,3) jf pl sm False p2 \<open>\<not> fd < 0\<close> show ?thesis
          by (simp add: sd_journal_sendv_def)
      qed
    qed
  qed
qed

text \<open>
  The theorem at the spec's scenario, the one field \<^verbatim>\<open>"MESSAGE=hello world"\<close>: under
  the operating system that accepts everything the datagram is the field and a newline;
  under the one that refuses, the call fails at \<^verbatim>\<open>socket\<close>, or at \<^verbatim>\<open>sendmsg\<close> when
  a descriptor was published before, and no datagram leaves.
\<close>

theorem datagram_effect_witness:
  "0 \<le> fd_plus_one initial_world \<and>
   sd_journal_sendv os_accepting (Some [bytes_of ''MESSAGE=hello world'']) 1 initial_world
     = Some (Return 0,
         \<lparr>fd_plus_one = 4, socket_calls = 1, sendmsg_calls = 1, created_fds = [3],
          closed_fds = [],
          datagrams = [\<lparr>dg_fd = 3, dg_path = ''/run/systemd/journal'',
                        dg_payload = bytes_of ''MESSAGE=hello world'' @ [10]\<rparr>]\<rparr>) \<and>
   sd_journal_sendv os_refusing (Some [bytes_of ''MESSAGE=hello world'']) 1 initial_world
     = Some (Return (- 24),
         \<lparr>fd_plus_one = 0, socket_calls = 1, sendmsg_calls = 0, created_fds = [],
          closed_fds = [], datagrams = []\<rparr>) \<and>
   (\<exists>out wd'.
      sd_journal_sendv os_refusing (Some [bytes_of ''MESSAGE=hello world'']) 1
        (initial_world\<lparr>fd_plus_one := 4\<rparr>) = Some (out, wd') \<and>
      out = Return (- 111) \<and> datagrams wd' = [])"
proof -
  have h1: "0 \<le> fd_plus_one initial_world" "0 \<le> fd_plus_one (initial_world\<lparr>fd_plus_one := 4\<rparr>)"
    by (simp_all add: initial_world_def)
  have h2: "fst (os_sendmsg os_accepting wd fd path bs) < 0 \<Longrightarrow>
      snd (os_sendmsg os_accepting wd fd path bs) \<noteq> 0" for wd fd path bs
    by (simp add: os_accepting_def)
  have h3: "fst (os_sendmsg os_refusing wd fd path bs) < 0 \<Longrightarrow>
      snd (os_sendmsg os_refusing wd fd path bs) \<noteq> 0" for wd fd path bs
    by (simp add: os_refusing_def)
  have e1: "sd_journal_sendv os_accepting (Some [bytes_of ''MESSAGE=hello world'']) 1 initial_world
     = Some (Return 0,
         \<lparr>fd_plus_one = 4, socket_calls = 1, sendmsg_calls = 1, created_fds = [3],
          closed_fds = [],
          datagrams = [\<lparr>dg_fd = 3, dg_path = ''/run/systemd/journal'',
                        dg_payload = bytes_of ''MESSAGE=hello world'' @ [10]\<rparr>]\<rparr>)"
    by code_simp
  have e2: "sd_journal_sendv os_refusing (Some [bytes_of ''MESSAGE=hello world'']) 1 initial_world
     = Some (Return (- 24),
         \<lparr>fd_plus_one = 0, socket_calls = 1, sendmsg_calls = 0, created_fds = [],
          closed_fds = [], datagrams = []\<rparr>)"
    by code_simp
  have e3: "sd_journal_sendv os_refusing (Some [bytes_of ''MESSAGE=hello world'']) 1
        (initial_world\<lparr>fd_plus_one := 4\<rparr>)
     = Some (Return (- 111), initial_world\<lparr>fd_plus_one := 4, sendmsg_calls := 1\<rparr>)"
    by code_simp
  have d: "datagrams initial_world = []" by (simp add: initial_world_def)
  from datagram_effect [OF h1(2) h3, of "Some [bytes_of ''MESSAGE=hello world'']" 1] e3 d
  have "\<exists>out wd'.
      sd_journal_sendv os_refusing (Some [bytes_of ''MESSAGE=hello world'']) 1
        (initial_world\<lparr>fd_plus_one := 4\<rparr>) = Some (out, wd') \<and>
      out = Return (- 111) \<and> datagrams wd' = []"
    by auto
  with h1(1) e1 e2 show ?thesis by blast
qed

subsection \<open>Claim C10: a long message is cut, not refused\<close>

lemma MESSAGE_bytes: "bytes_of ''MESSAGE='' = [77, 69, 83, 83, 65, 71, 69, 61]"
  by code_simp

lemma takeWhile_stop: "\<not> P y \<Longrightarrow> takeWhile P (xs @ y # ys) = takeWhile P xs"
  by (induction xs) auto

lemma list_update_behind: "(xs @ y # ys)[length xs + Suc k := v] = xs @ y # ys[k := v]"
  by (simp add: list_update_append)

lemma list_update_at: "(xs @ y # ys)[length xs := y] = xs @ y # ys"
  by (simp add: list_update_append)

lemma printv_buffer_contents:
  assumes "0 < line_max"
  shows "\<exists>rest. printv_buffer line_max stack text
      = bytes_of ''MESSAGE='' @ take (line_max - 1) text @ 0 # rest"
proof -
  let ?M = "bytes_of ''MESSAGE=''"
  let ?T = "take (line_max - 1) text"
  let ?b0 = "map stack [0..<8 + line_max]"
  have lM: "length ?M = 8" by (simp add: MESSAGE_bytes)
  have b1: "memcpy ?b0 0 ?M = ?M @ drop 8 ?b0"
    by (simp add: memcpy_def lM)
  then have l1: "length (memcpy ?b0 0 ?M) = 8 + line_max"
    by (simp add: lM)
  have lT: "length ?T \<le> line_max - 1" by simp
  define G where "G = drop (8 + (length ?T + 1)) (?M @ drop 8 ?b0)"
  have b2: "vsnprintf (memcpy ?b0 0 ?M) 8 line_max text = ?M @ ?T @ 0 # G"
    using assms by (simp add: vsnprintf_def memcpy_def b1 lM G_def)
  have "length G = line_max - (length ?T + 1)"
    by (simp add: G_def lM)
  with lT assms have lG: "length ?T + 1 + length G = line_max"
    by simp
  have "char_array_0 (?M @ ?T @ 0 # G) = ?M @ (?T @ 0 # G)[line_max - 1 := 0]"
    using lG by (simp add: char_array_0_def lM list_update_append)
  moreover have "\<exists>rest. (?T @ 0 # G)[line_max - 1 := 0] = ?T @ 0 # rest"
  proof (cases "length ?T = line_max - 1")
    case True
    then show ?thesis using list_update_at [of ?T 0 G] by auto
  next
    case False
    with lT have "length ?T < line_max - 1" by simp
    then obtain k where k: "line_max - 1 = length ?T + Suc k"
      by (metis less_imp_Suc_add add_Suc_right)
    have "(?T @ 0 # G)[length ?T + Suc k := 0] = ?T @ 0 # G[k := 0]"
      by (rule list_update_behind)
    then have "(?T @ 0 # G)[line_max - 1 := 0] = ?T @ 0 # G[k := 0]"
      by (simp only: k [symmetric])
    then show ?thesis by blast
  qed
  ultimately obtain rest where
    "char_array_0 (?M @ ?T @ 0 # G) = ?M @ ?T @ 0 # rest" by auto
  then show ?thesis
    using b2 l1 by (intro exI [of _ rest]) (simp add: printv_buffer_def Let_def)
qed

lemma length_printv_buffer: "length (printv_buffer line_max stack text) = 8 + line_max"
  by (simp add: printv_buffer_def Let_def char_array_0_def vsnprintf_def memcpy_def MESSAGE_bytes)

lemma printv_buffer_long:
  assumes "0 < line_max" and "line_max \<le> length text"
  shows "printv_buffer line_max stack text
      = bytes_of ''MESSAGE='' @ take (line_max - 1) text @ [0]"
proof -
  from printv_buffer_contents [OF assms(1)] obtain rest where
    r: "printv_buffer line_max stack text
      = bytes_of ''MESSAGE='' @ take (line_max - 1) text @ 0 # rest" by blast
  have "length (bytes_of ''MESSAGE='' @ take (line_max - 1) text @ 0 # rest) = 8 + line_max"
    using length_printv_buffer [of line_max stack "text"] r by simp
  with assms have "rest = []"
    by (simp add: MESSAGE_bytes)
  with r show ?thesis by simp
qed

lemma printv_iov:
  assumes "0 < line_max"
  shows "IOVEC_SET_STRING (printv_buffer line_max stack text)
      = bytes_of ''MESSAGE='' @ takeWhile (\<lambda>b. b \<noteq> 0) (take (line_max - 1) text)"
proof -
  from printv_buffer_contents [OF assms] obtain rest where
    r: "printv_buffer line_max stack text
      = bytes_of ''MESSAGE='' @ take (line_max - 1) text @ 0 # rest" by blast
  have "takeWhile (\<lambda>b. b \<noteq> 0) (bytes_of ''MESSAGE='' @ take (line_max - 1) text @ 0 # rest)
      = bytes_of ''MESSAGE='' @ takeWhile (\<lambda>b. b \<noteq> 0) (take (line_max - 1) text @ 0 # rest)"
    by (simp add: MESSAGE_bytes)
  also have "takeWhile (\<lambda>b. b \<noteq> 0) (take (line_max - 1) text @ 0 # rest)
      = takeWhile (\<lambda>b. b \<noteq> 0) (take (line_max - 1) text)"
    by (rule takeWhile_stop) simp
  finally show ?thesis by (simp add: IOVEC_SET_STRING_def r)
qed

lemma message_well_formed: "spec_well_formed (bytes_of ''MESSAGE='' @ v)"
  by (simp add: spec_well_formed_def spec_name_def MESSAGE_bytes EQ_def NL_def)

lemma sendv_sends:
  assumes "\<forall>f\<in>set fs. spec_well_formed f" and "fs \<noteq> []"
    and "journal_fd os wd = Some (fd, wd1)" and "0 \<le> fd"
    and "os_sendmsg os wd1 fd journal_path (spec_record fs) = (ret, errno)" and "0 \<le> ret"
  shows "sd_journal_sendv os (Some fs) (int (length fs)) wd =
    Some (Return 0,
      wd1\<lparr>sendmsg_calls := sendmsg_calls wd1 + 1,
          datagrams := datagrams wd1 @
            [\<lparr>dg_fd = fd, dg_path = journal_path, dg_payload = spec_record fs\<rparr>]\<rparr>)"
proof -
  from encode_well_formed [OF assms(1)] obtain st where st: "encode fs (length fs) = Inr st"
    by blast
  with assms(1) have pl: "payload fs st = Some (spec_record fs)"
    by (rule payload_well_formed)
  from assms(2) have "\<not> int (length fs) \<le> 0" by simp
  with st pl assms(3-6) show ?thesis
    by (simp add: sd_journal_sendv_def sendmsg_def)
qed


text \<open>
  Claim C10. \<^verbatim>\<open>sd_journal_printv\<close> builds its field in an array of \<open>8 + line_max\<close>
  bytes, for \<open>line_max > 0\<close>. When the formatted text and its NUL byte do not fit into
  the \<open>line_max\<close> bytes behind \<^verbatim>\<open>MESSAGE=\<close>, the array holds \<^verbatim>\<open>MESSAGE=\<close>, the first
  \<open>line_max - 1\<close> bytes of the text and a NUL byte, whatever it held before; the field
  passed on is that string; the call is exactly the call of \<^verbatim>\<open>sd_journal_sendv\<close> with
  this one field, so the length adds no error of its own; the loop accepts the field;
  and when the descriptor is obtained and \<^verbatim>\<open>sendmsg\<close> does not fail, the call returns
  0 and the one datagram sent is the record of the cut field.
  \<^verbatim>\<open>sd_journal_print\<close> does the same.
\<close>

theorem printv_truncates:
  assumes "0 < line_max" and "line_max \<le> length text"
  shows "printv_buffer line_max stack text
           = bytes_of ''MESSAGE='' @ take (line_max - 1) text @ [0] \<and>
         IOVEC_SET_STRING (printv_buffer line_max stack text)
           = bytes_of ''MESSAGE='' @ takeWhile (\<lambda>b. b \<noteq> 0) (take (line_max - 1) text) \<and>
         sd_journal_printv line_max os stack text wd
           = sd_journal_sendv os (Some [IOVEC_SET_STRING (printv_buffer line_max stack text)]) 1 wd \<and>
         sd_journal_print line_max os stack text wd
           = sd_journal_printv line_max os stack text wd \<and>
         (\<exists>st. encode [IOVEC_SET_STRING (printv_buffer line_max stack text)] 1 = Inr st) \<and>
         (\<forall>fd wd1 ret errno.
            journal_fd os wd = Some (fd, wd1) \<and> 0 \<le> fd \<and>
            os_sendmsg os wd1 fd journal_path
              (spec_record [IOVEC_SET_STRING (printv_buffer line_max stack text)]) = (ret, errno) \<and>
            0 \<le> ret \<longrightarrow>
            sd_journal_printv line_max os stack text wd =
              Some (Return 0,
                wd1\<lparr>sendmsg_calls := sendmsg_calls wd1 + 1,
                    datagrams := datagrams wd1 @
                      [\<lparr>dg_fd = fd, dg_path = journal_path,
                        dg_payload =
                          spec_record [IOVEC_SET_STRING (printv_buffer line_max stack text)]\<rparr>]\<rparr>))"
proof -
  let ?f = "IOVEC_SET_STRING (printv_buffer line_max stack text)"
  have 1: "printv_buffer line_max stack text
           = bytes_of ''MESSAGE='' @ take (line_max - 1) text @ [0]"
    using assms by (rule printv_buffer_long)
  have 2: "?f = bytes_of ''MESSAGE='' @ takeWhile (\<lambda>b. b \<noteq> 0) (take (line_max - 1) text)"
    using assms(1) by (rule printv_iov)
  have 3: "sd_journal_printv line_max os stack text wd = sd_journal_sendv os (Some [?f]) 1 wd"
    by (simp add: sd_journal_printv_def)
  have 4: "sd_journal_print line_max os stack text wd = sd_journal_printv line_max os stack text wd"
    by (simp add: sd_journal_print_def)
  have wf: "\<forall>f\<in>set [?f]. spec_well_formed f"
    by (simp add: 2 message_well_formed)
  from encode_well_formed [OF wf] have 5: "\<exists>st. encode [?f] 1 = Inr st"
    by auto
  have 6: "sd_journal_printv line_max os stack text wd =
      Some (Return 0,
        wd1\<lparr>sendmsg_calls := sendmsg_calls wd1 + 1,
            datagrams := datagrams wd1 @
              [\<lparr>dg_fd = fd, dg_path = journal_path, dg_payload = spec_record [?f]\<rparr>]\<rparr>)"
    if "journal_fd os wd = Some (fd, wd1) \<and> 0 \<le> fd \<and>
        os_sendmsg os wd1 fd journal_path (spec_record [?f]) = (ret, errno) \<and> 0 \<le> ret"
    for fd wd1 ret errno
    using sendv_sends [OF wf, of os wd fd wd1 ret errno] that by (simp add: 3)
  from 1 2 3 4 5 6 show ?thesis by blast
qed


text \<open>
  The theorem for \<open>line_max = 4\<close> and the text \<^verbatim>\<open>hello\<close>: the field is
  \<^verbatim>\<open>MESSAGE=hel\<close>. It is sent when the operating system accepts, and when
  \<^verbatim>\<open>socket\<close> fails the call returns that error, as for any other field.
\<close>

theorem printv_truncates_witness:
  "(0 :: nat) < 4 \<and> 4 \<le> length (bytes_of ''hello'') \<and>
   printv_buffer 4 (\<lambda>k. 7) (bytes_of ''hello'') = bytes_of ''MESSAGE=hel'' @ [0] \<and>
   IOVEC_SET_STRING (printv_buffer 4 (\<lambda>k. 7) (bytes_of ''hello'')) = bytes_of ''MESSAGE=hel'' \<and>
   sd_journal_printv 4 os_accepting (\<lambda>k. 7) (bytes_of ''hello'') initial_world
     = Some (Return 0,
         \<lparr>fd_plus_one = 4, socket_calls = 1, sendmsg_calls = 1, created_fds = [3],
          closed_fds = [],
          datagrams = [\<lparr>dg_fd = 3, dg_path = ''/run/systemd/journal'',
                        dg_payload = bytes_of ''MESSAGE=hel'' @ [10]\<rparr>]\<rparr>) \<and>
   sd_journal_printv 4 os_refusing (\<lambda>k. 7) (bytes_of ''hello'') initial_world
     = Some (Return (- 24),
         \<lparr>fd_plus_one = 0, socket_calls = 1, sendmsg_calls = 0, created_fds = [],
          closed_fds = [], datagrams = []\<rparr>)"
proof -
  have h1: "(0 :: nat) < 4" by simp
  have h2: "4 \<le> length (bytes_of ''hello'')" by (simp add: bytes_of_def)
  have e: "bytes_of ''MESSAGE='' @ take (4 - 1) (bytes_of ''hello'') @ [0]
      = bytes_of ''MESSAGE=hel'' @ [0]"
    "bytes_of ''MESSAGE='' @ takeWhile (\<lambda>b. b \<noteq> 0) (take (4 - 1) (bytes_of ''hello''))
      = bytes_of ''MESSAGE=hel''"
    by code_simp+
  note r = printv_truncates [OF h1 h2, of "\<lambda>k. 7" os_accepting initial_world, unfolded e]
  have b: "printv_buffer 4 (\<lambda>k. 7) (bytes_of ''hello'') = bytes_of ''MESSAGE=hel'' @ [0]"
    "IOVEC_SET_STRING (printv_buffer 4 (\<lambda>k. 7) (bytes_of ''hello'')) = bytes_of ''MESSAGE=hel''"
    using r by blast+
  have s1: "sd_journal_sendv os_accepting (Some [bytes_of ''MESSAGE=hel'']) 1 initial_world
     = Some (Return 0,
         \<lparr>fd_plus_one = 4, socket_calls = 1, sendmsg_calls = 1, created_fds = [3],
          closed_fds = [],
          datagrams = [\<lparr>dg_fd = 3, dg_path = ''/run/systemd/journal'',
                        dg_payload = bytes_of ''MESSAGE=hel'' @ [10]\<rparr>]\<rparr>)"
    by code_simp
  have s2: "sd_journal_sendv os_refusing (Some [bytes_of ''MESSAGE=hel'']) 1 initial_world
     = Some (Return (- 24),
         \<lparr>fd_plus_one = 0, socket_calls = 1, sendmsg_calls = 0, created_fds = [],
          closed_fds = [], datagrams = []\<rparr>)"
    by code_simp
  have p: "sd_journal_printv 4 os (\<lambda>k. 7) (bytes_of ''hello'') initial_world
      = sd_journal_sendv os (Some [bytes_of ''MESSAGE=hel'']) 1 initial_world" for os
    by (simp only: sd_journal_printv_def Let_def b(2))
  show ?thesis using h1 h2 b s1 s2 by (simp only: p simp_thms)
qed

end
